theory Spec2Isabelle
  imports Main
begin

section \<open>Python values, errors and string helpers\<close>

text \<open>
  The file embeds \<^verbatim>\<open>neutron/agent/linux/ovs_lib.py\<close>.  Values stored in a flow
  dictionary are strings or integers, the two kinds the callers pass as keyword arguments.
\<close>

datatype pyval = is_PyStr: PyStr string | PyInt int

text \<open>
  Every exception the embedded code can raise is a value.  \<open>InvalidInput\<close> carries the
  message of \<^verbatim>\<open>exceptions.InvalidInput\<close>; \<open>ExecError\<close> is whatever
  \<^verbatim>\<open>utils.execute\<close> raises; \<open>OtherError\<close> is an exception of the caller.
\<close>

datatype error =
    InvalidInput string
  | TypeError
  | ValueError
  | KeyError string
  | AttributeError string
  | RetryError
  | ExecError string
  | OtherError string

definition digit_char :: "nat \<Rightarrow> char" where
  "digit_char n = ''0123456789'' ! n"

function show_nat :: "nat \<Rightarrow> string" where
  "show_nat n = (if n < 10 then [digit_char n] else show_nat (n div 10) @ [digit_char (n mod 10)])"
  by pat_completeness auto
termination
  by (relation "measure (\<lambda>n. n)") auto

declare show_nat.simps [simp del]

definition show_int :: "int \<Rightarrow> string" where
  "show_int i = (if i < 0 then CHR ''-'' # show_nat (nat (- i)) else show_nat (nat i))"

text \<open>\<^verbatim>\<open>str(value)\<close> and \<^verbatim>\<open>"%s" % value\<close> on the two kinds of value.\<close>

fun py_str :: "pyval \<Rightarrow> string" where
  "py_str (PyStr s) = s"
| "py_str (PyInt i) = show_int i"

text \<open>\<^verbatim>\<open>s.lstrip(chars)\<close>, \<^verbatim>\<open>s.rstrip(chars)\<close>, \<^verbatim>\<open>s.strip(chars)\<close>:
  every leading (trailing) character that is in \<open>chars\<close> is removed.\<close>

definition py_lstrip :: "string \<Rightarrow> string \<Rightarrow> string" where
  "py_lstrip chars s = dropWhile (\<lambda>c. c \<in> set chars) s"

definition py_rstrip :: "string \<Rightarrow> string \<Rightarrow> string" where
  "py_rstrip chars s = rev (dropWhile (\<lambda>c. c \<in> set chars) (rev s))"

definition py_strip :: "string \<Rightarrow> string \<Rightarrow> string" where
  "py_strip chars s = py_rstrip chars (py_lstrip chars s)"

text \<open>The characters \<^verbatim>\<open>s.strip()\<close> removes: space, tab, newline, return, VT, FF.\<close>

definition whitespace :: string where
  "whitespace = [CHR '' '', CHR 0x09, CHR 0x0A, CHR 0x0D, CHR 0x0B, CHR 0x0C]"

text \<open>
  \<^verbatim>\<open>s.split(sep)\<close> for a non-empty separator: the text is cut at every occurrence of
  \<open>sep\<close>, scanning from the left; \<open>cur\<close> holds the current piece, reversed.
\<close>

function split_from :: "string \<Rightarrow> string \<Rightarrow> string \<Rightarrow> string list" where
  "split_from sep cur [] = [rev cur]"
| "split_from sep cur (c # cs) =
     (if sep \<noteq> [] \<and> take (length sep) (c # cs) = sep
      then rev cur # split_from sep [] (drop (length sep) (c # cs))
      else split_from sep (c # cur) cs)"
  by pat_completeness auto
termination
  by (relation "measure (\<lambda>(sep, cur, s). length s)") auto

definition py_split :: "string \<Rightarrow> string \<Rightarrow> string list" where
  "py_split sep s = split_from sep [] s"

text \<open>\<^verbatim>\<open>sep.join(items)\<close> on a list of strings.\<close>

fun py_join :: "string \<Rightarrow> string list \<Rightarrow> string" where
  "py_join sep [] = []"
| "py_join sep [x] = x"
| "py_join sep (x # y # ys) = x @ sep @ py_join sep (y # ys)"

text \<open>\<^verbatim>\<open>sep.join(items)\<close> raises \<^verbatim>\<open>TypeError\<close> when an item is not a string.\<close>

definition py_join_vals :: "string \<Rightarrow> pyval list \<Rightarrow> error + string" where
  "py_join_vals sep items =
     (if list_all is_PyStr items then Inr (py_join sep (map py_str items)) else Inl TypeError)"

section \<open>Dictionaries\<close>

text \<open>
  A keyword-argument dictionary is an association list with distinct keys, in the order
  in which \<^verbatim>\<open>iteritems()\<close> visits it.
\<close>

type_synonym flow_dict = "(string \<times> pyval) list"

definition has_key :: "('k \<times> 'v) list \<Rightarrow> 'k \<Rightarrow> bool" where
  "has_key d k = (map_of d k \<noteq> None)"

definition del_key :: "'k \<Rightarrow> ('k \<times> 'v) list \<Rightarrow> ('k \<times> 'v) list" where
  "del_key k d = filter (\<lambda>kv. fst kv \<noteq> k) d"

text \<open>\<^verbatim>\<open>d.pop(k, default)\<close>: the value and the dictionary without the key.\<close>

definition dict_pop :: "'k \<Rightarrow> 'v \<Rightarrow> ('k \<times> 'v) list \<Rightarrow> 'v \<times> ('k \<times> 'v) list" where
  "dict_pop k dflt d = (case map_of d k of None \<Rightarrow> (dflt, d) | Some v \<Rightarrow> (v, del_key k d))"

section \<open>Flow expressions: \<^verbatim>\<open>_build_flow_expr_str\<close>\<close>

definition msg_priority :: string where
  "msg_priority = ''Cannot match priority on flow deletion or modification''"

definition msg_actions :: string where
  "msg_actions = ''Must specify one or more actions on flow addition or modification''"

text \<open>One step of the loop over \<^verbatim>\<open>flow_dict.iteritems()\<close>: the item appended to
  \<^verbatim>\<open>flow_expr_arr\<close>.  The value of \<^verbatim>\<open>proto\<close> is appended as it is.\<close>

fun flow_item :: "string \<times> pyval \<Rightarrow> pyval" where
  "flow_item (key, val) = (if key = ''proto'' then val else PyStr (key @ ''='' @ py_str val))"

text \<open>
  The function returns its result together with the dictionary as it has left it: the
  \<^verbatim>\<open>pop\<close> calls change the caller's dictionary, also on the paths that raise.
\<close>

definition build_flow_expr_str :: "flow_dict \<Rightarrow> string \<Rightarrow> (error + string) \<times> flow_dict" where
  "build_flow_expr_str flow_dict cmd =
     (let (r0, d0) =
        (if cmd = ''add'' then
           (let (ht, d1) = dict_pop ''hard_timeout'' (PyStr ''0'') flow_dict;
                (it, d2) = dict_pop ''idle_timeout'' (PyStr ''0'') d1;
                (pr, d3) = dict_pop ''priority'' (PyStr ''1'') d2
            in (Inr [PyStr (''hard_timeout='' @ py_str ht),
                     PyStr (''idle_timeout='' @ py_str it),
                     PyStr (''priority='' @ py_str pr)], d3))
         else if has_key flow_dict ''priority'' then (Inl (InvalidInput msg_priority), flow_dict)
         else (Inr [], flow_dict))
      in case r0 of
           Inl e \<Rightarrow> (Inl e, d0)
         | Inr flow_expr_arr \<Rightarrow>
             if cmd \<noteq> ''del'' then
               (case map_of d0 ''actions'' of
                  None \<Rightarrow> (Inl (InvalidInput msg_actions), d0)
                | Some a \<Rightarrow>
                    (let d4 = del_key ''actions'' d0;
                         actions = PyStr (''actions='' @ py_str a)
                     in (py_join_vals '','' (flow_expr_arr @ map flow_item d4 @ [actions]), d4)))
             else (py_join_vals '','' (flow_expr_arr @ map flow_item d0), d0))"

text \<open>The text of one remaining field in the expression: \<open>key=value\<close>, and the bare
  value for \<^verbatim>\<open>proto\<close>.\<close>

definition field_token :: "string \<times> pyval \<Rightarrow> string" where
  "field_token kv = (if fst kv = ''proto'' then py_str (snd kv) else fst kv @ ''='' @ py_str (snd kv))"

text \<open>The value a key renders with on addition: the one given, or the default.\<close>

definition value_or :: "flow_dict \<Rightarrow> string \<Rightarrow> string \<Rightarrow> string" where
  "value_or d k dflt = (case map_of d k of None \<Rightarrow> dflt | Some v \<Rightarrow> py_str v)"


text \<open>The keys an addition consumes before the remaining fields are rendered.\<close>

definition del3 :: "flow_dict \<Rightarrow> flow_dict" where
  "del3 d = del_key ''priority'' (del_key ''idle_timeout'' (del_key ''hard_timeout'' d))"

section \<open>The command executor and the bridge\<close>

text \<open>
  \<^verbatim>\<open>utils.execute\<close> is outside the file.  A command is the argument vector, the
  privilege helper and the text fed to standard input.  The world records every command
  handed to the executor, oldest first, and a clock in milliseconds; the executor answers a
  command, in a given world, with its output or an exception, and with the time it took.
\<close>

record command =
  argv :: "string list"
  helper :: string
  process_input :: "string option"

record world =
  issued :: "command list"
  clock :: nat

type_synonym executor = "world \<Rightarrow> command \<Rightarrow> (error + string) \<times> nat"

definition execute :: "executor \<Rightarrow> command \<Rightarrow> world \<Rightarrow> (error + string) \<times> world" where
  "execute ex c w =
     (fst (ex w c), w\<lparr>issued := issued w @ [c], clock := clock w + snd (ex w c)\<rparr>)"

record bridge =
  br_name :: string
  root_helper :: string
  vsctl_timeout :: int

definition INVALID_OFPORT :: string where
  "INVALID_OFPORT = ''-1''"

definition newline :: string where
  "newline = [CHR 0x0A]"

text \<open>\<^verbatim>\<open>run_vsctl\<close>: an exception of the executor is swallowed (the result is
  \<^verbatim>\<open>None\<close>) unless \<^verbatim>\<open>check_error\<close> is set.\<close>

definition run_vsctl ::
  "executor \<Rightarrow> bridge \<Rightarrow> string list \<Rightarrow> bool \<Rightarrow> world \<Rightarrow> (error + string option) \<times> world" where
  "run_vsctl ex self args check_error w =
     (let full_args = [''ovs-vsctl'', ''--timeout='' @ show_int (vsctl_timeout self)] @ args
      in case execute ex \<lparr>argv = full_args, helper = root_helper self, process_input = None\<rparr> w of
           (Inr out, w') \<Rightarrow> (Inr (Some out), w')
         | (Inl e, w') \<Rightarrow> (if check_error then Inl e else Inr None, w'))"

text \<open>\<^verbatim>\<open>run_ofctl\<close> catches every exception of the executor and returns
  \<^verbatim>\<open>None\<close> then.\<close>

definition run_ofctl ::
  "executor \<Rightarrow> bridge \<Rightarrow> string \<Rightarrow> string list \<Rightarrow> string option \<Rightarrow> world \<Rightarrow> string option \<times> world" where
  "run_ofctl ex self cmd args p_input w =
     (let full_args = [''ovs-ofctl'', cmd, br_name self] @ args
      in case execute ex \<lparr>argv = full_args, helper = root_helper self, process_input = p_input\<rparr> w of
           (Inr out, w') \<Rightarrow> (Some out, w')
         | (Inl e, w') \<Rightarrow> (None, w'))"

text \<open>The list comprehension of \<^verbatim>\<open>do_action_flows\<close>: the rules are rendered from left
  to right, and the first exception ends it; the dictionaries are returned as left.\<close>

fun build_all :: "string \<Rightarrow> flow_dict list \<Rightarrow> (error + string list) \<times> flow_dict list" where
  "build_all action [] = (Inr [], [])"
| "build_all action (kw # kws) =
     (case build_flow_expr_str kw action of
        (Inl e, kw') \<Rightarrow> (Inl e, kw' # kws)
      | (Inr s, kw') \<Rightarrow>
          (case build_all action kws of
             (Inl e, kws') \<Rightarrow> (Inl e, kw' # kws')
           | (Inr ss, kws') \<Rightarrow> (Inr (s # ss), kw' # kws')))"

definition do_action_flows ::
  "executor \<Rightarrow> bridge \<Rightarrow> string \<Rightarrow> flow_dict list \<Rightarrow> world \<Rightarrow> (error + unit) \<times> flow_dict list \<times> world" where
  "do_action_flows ex self action kwargs_list w =
     (case build_all action kwargs_list of
        (Inl e, kws') \<Rightarrow> (Inl e, kws', w)
      | (Inr flow_strs, kws') \<Rightarrow>
          (Inr (), kws',
           snd (run_ofctl ex self (action @ ''-flows'') [''-''] (Some (py_join newline flow_strs)) w)))"

definition add_flow :: "executor \<Rightarrow> bridge \<Rightarrow> flow_dict \<Rightarrow> world \<Rightarrow> (error + unit) \<times> flow_dict list \<times> world" where
  "add_flow ex self kwargs w = do_action_flows ex self ''add'' [kwargs] w"

definition mod_flow :: "executor \<Rightarrow> bridge \<Rightarrow> flow_dict \<Rightarrow> world \<Rightarrow> (error + unit) \<times> flow_dict list \<times> world" where
  "mod_flow ex self kwargs w = do_action_flows ex self ''mod'' [kwargs] w"

definition delete_flows :: "executor \<Rightarrow> bridge \<Rightarrow> flow_dict \<Rightarrow> world \<Rightarrow> (error + unit) \<times> flow_dict list \<times> world" where
  "delete_flows ex self kwargs w = do_action_flows ex self ''del'' [kwargs] w"

section \<open>\<^verbatim>\<open>DeferredOVSBridge\<close>\<close>

text \<open>
  \<^verbatim>\<open>weights\<close> is set by the constructor only when \<^verbatim>\<open>full_ordered\<close> is false;
  it is \<^verbatim>\<open>dict((y, x) for x, y in enumerate(order))\<close>, where a later position of a
  repeated kind wins.
\<close>

record deferred_bridge =
  br :: bridge
  full_ordered :: bool
  flow_order :: "string list"
  weights :: "(string \<rightharpoonup> nat) option"
  action_flow_tuples :: "(string \<times> flow_dict) list"

definition default_order :: "string list" where
  "default_order = [''add'', ''mod'', ''del'']"

definition DeferredOVSBridge :: "bridge \<Rightarrow> bool \<Rightarrow> string list \<Rightarrow> deferred_bridge" where
  "DeferredOVSBridge b fo ord =
     \<lparr>br = b, full_ordered = fo, flow_order = ord,
      weights = (if \<not> fo then Some (map_of (rev (zip ord [0..<length ord]))) else None),
      action_flow_tuples = []\<rparr>"

definition deferred_add_flow :: "deferred_bridge \<Rightarrow> flow_dict \<Rightarrow> deferred_bridge" where
  "deferred_add_flow self kwargs =
     self\<lparr>action_flow_tuples := action_flow_tuples self @ [(''add'', kwargs)]\<rparr>"

definition deferred_mod_flow :: "deferred_bridge \<Rightarrow> flow_dict \<Rightarrow> deferred_bridge" where
  "deferred_mod_flow self kwargs =
     self\<lparr>action_flow_tuples := action_flow_tuples self @ [(''mod'', kwargs)]\<rparr>"

definition deferred_delete_flows :: "deferred_bridge \<Rightarrow> flow_dict \<Rightarrow> deferred_bridge" where
  "deferred_delete_flows self kwargs =
     self\<lparr>action_flow_tuples := action_flow_tuples self @ [(''del'', kwargs)]\<rparr>"

text \<open>A call of one of the three buffering methods, and a sequence of such calls.\<close>

datatype flow_call = Add_flow flow_dict | Mod_flow flow_dict | Delete_flows flow_dict

fun submit :: "deferred_bridge \<Rightarrow> flow_call \<Rightarrow> deferred_bridge" where
  "submit self (Add_flow kw) = deferred_add_flow self kw"
| "submit self (Mod_flow kw) = deferred_mod_flow self kw"
| "submit self (Delete_flows kw) = deferred_delete_flows self kw"

fun call_kind :: "flow_call \<Rightarrow> string" where
  "call_kind (Add_flow kw) = ''add''"
| "call_kind (Mod_flow kw) = ''mod''"
| "call_kind (Delete_flows kw) = ''del''"

fun call_rule :: "flow_call \<Rightarrow> flow_dict" where
  "call_rule (Add_flow kw) = kw"
| "call_rule (Mod_flow kw) = kw"
| "call_rule (Delete_flows kw) = kw"

text \<open>
  \<^verbatim>\<open>list.sort(key=lambda af: self.weights[af[0]])\<close>: the keys are computed first, so
  a kind without a weight raises \<^verbatim>\<open>KeyError\<close>; the sort is stable.
\<close>

definition sort_by_weight ::
  "(string \<rightharpoonup> nat) option \<Rightarrow> (string \<times> 'a) list \<Rightarrow> error + (string \<times> 'a) list" where
  "sort_by_weight wts afts =
     (case wts of
        None \<Rightarrow> Inl (AttributeError ''weights'')
      | Some wt \<Rightarrow>
          (case find (\<lambda>af. wt (fst af) = None) afts of
             Some af \<Rightarrow> Inl (KeyError (fst af))
           | None \<Rightarrow> Inr (sort_key (\<lambda>af. the (wt (fst af))) afts)))"

text \<open>\<^verbatim>\<open>itertools.groupby(xs, key)\<close>: the maximal runs of consecutive items with the
  same key, each with its key.\<close>

function groupby :: "('a \<Rightarrow> 'k) \<Rightarrow> 'a list \<Rightarrow> ('k \<times> 'a list) list" where
  "groupby key [] = []"
| "groupby key (x # xs) =
     (key x, x # takeWhile (\<lambda>y. key y = key x) xs)
       # groupby key (dropWhile (\<lambda>y. key y = key x) xs)"
  by pat_completeness auto
termination
  by (relation "measure (\<lambda>(key, xs). length xs)") (auto simp: length_dropWhile_le less_Suc_eq_le)

text \<open>The loop of \<^verbatim>\<open>apply_flows\<close> over the groups; an exception of
  \<^verbatim>\<open>do_action_flows\<close> ends it.\<close>

fun apply_groups ::
  "executor \<Rightarrow> bridge \<Rightarrow> (string \<times> (string \<times> flow_dict) list) list \<Rightarrow> world \<Rightarrow> (error + unit) \<times> world" where
  "apply_groups ex b [] w = (Inr (), w)"
| "apply_groups ex b ((action, action_flow_list) # rest) w =
     (case do_action_flows ex b action (map snd action_flow_list) w of
        (Inl e, kws', w') \<Rightarrow> (Inl e, w')
      | (Inr u, kws', w') \<Rightarrow> apply_groups ex b rest w')"

definition apply_flows ::
  "executor \<Rightarrow> deferred_bridge \<Rightarrow> world \<Rightarrow> (error + unit) \<times> deferred_bridge \<times> world" where
  "apply_flows ex self w =
     (let afts = action_flow_tuples self;
          self' = self\<lparr>action_flow_tuples := []\<rparr>
      in if afts = [] then (Inr (), self', w)
         else
           (case (if \<not> full_ordered self then sort_by_weight (weights self) afts else Inr afts) of
              Inl e \<Rightarrow> (Inl e, self', w)
            | Inr sorted_afts \<Rightarrow>
                (case apply_groups ex (br self) (groupby fst sorted_afts) w of
                   (r, w') \<Rightarrow> (r, self', w'))))"

text \<open>
  \<^verbatim>\<open>__exit__\<close> receives the exception that ended the block, if any.  It returns
  \<^verbatim>\<open>None\<close> on both paths, so it never suppresses that exception.
\<close>

definition deferred_exit ::
  "executor \<Rightarrow> deferred_bridge \<Rightarrow> error option \<Rightarrow> world \<Rightarrow> (error + unit) \<times> deferred_bridge \<times> world" where
  "deferred_exit ex self exc_type w =
     (case exc_type of
        None \<Rightarrow> apply_flows ex self w
      | Some e \<Rightarrow> (Inr (), self, w))"

text \<open>
  The \<^verbatim>\<open>with\<close> statement around a block: the block works on the deferred bridge and
  the world and ends normally or with an exception; \<^verbatim>\<open>__exit__\<close> runs in both
  cases, and the block's exception is raised again after it.
\<close>

definition with_deferred ::
  "executor \<Rightarrow> deferred_bridge \<Rightarrow> (deferred_bridge \<Rightarrow> world \<Rightarrow> error option \<times> deferred_bridge \<times> world)
     \<Rightarrow> world \<Rightarrow> (error + unit) \<times> deferred_bridge \<times> world" where
  "with_deferred ex self body w =
     (case body self w of
        (None, d1, w1) \<Rightarrow> deferred_exit ex d1 None w1
      | (Some e, d1, w1) \<Rightarrow>
          (case deferred_exit ex d1 (Some e) w1 of
             (Inl e', d2, w2) \<Rightarrow> (Inl e', d2, w2)
           | (Inr u, d2, w2) \<Rightarrow> (Inl e, d2, w2)))"

section \<open>Auxiliary notions for the statements\<close>

text \<open>The keys \<^verbatim>\<open>_build_flow_expr_str\<close> pops for a command, the rules it rejects and the
  message it rejects them with; an executor that answers every command with empty output, a
  bridge and an initial world for the examples.\<close>


definition consumed_keys :: "string \<Rightarrow> string set" where
  "consumed_keys cmd =
     (if cmd = ''add'' then {''hard_timeout'', ''idle_timeout'', ''priority'', ''actions''}
      else if cmd = ''del'' then {} else {''actions''})"

definition quiet_executor :: executor where
  "quiet_executor w c = (Inr [], 0)"

definition demo_bridge :: bridge where
  "demo_bridge = \<lparr>br_name = ''br-int'', root_helper = ''sudo'', vsctl_timeout = 10\<rparr>"

definition world0 :: world where
  "world0 = \<lparr>issued = [], clock = 0\<rparr>"

definition validation_msg :: "flow_dict \<Rightarrow> string \<Rightarrow> string" where
  "validation_msg d cmd =
     (if cmd \<noteq> ''add'' \<and> has_key d ''priority'' then msg_priority else msg_actions)"

definition invalid_rule :: "flow_dict \<Rightarrow> string \<Rightarrow> bool" where
  "invalid_rule d cmd =
     ((has_key d ''priority'' \<and> (cmd = ''del'' \<or> cmd = ''mod'')) \<or>
      (\<not> has_key d ''actions'' \<and> (cmd = ''add'' \<or> cmd = ''mod'')))"

text \<open>
  For the statements about \<^verbatim>\<open>apply_flows\<close>: the buffer a sequence of calls builds,
  the rules of one kind in submission order, the group of one kind (absent when no call had
  that kind), whether a rule renders, its text, and the \<^verbatim>\<open>ovs-ofctl\<close> command
  \<^verbatim>\<open>do_action_flows\<close> issues for a batch.
\<close>


definition tuples_of :: "flow_call list \<Rightarrow> (string \<times> flow_dict) list" where
  "tuples_of calls = map (\<lambda>c. (call_kind c, call_rule c)) calls"

definition rules_of :: "string \<Rightarrow> flow_call list \<Rightarrow> flow_dict list" where
  "rules_of kind calls = map call_rule (filter (\<lambda>c. call_kind c = kind) calls)"

definition kind_group :: "string \<Rightarrow> (string \<times> flow_dict) list \<Rightarrow> (string \<times> (string \<times> flow_dict) list) list" where
  "kind_group kind afts =
     (if filter (\<lambda>af. fst af = kind) afts = [] then []
      else [(kind, filter (\<lambda>af. fst af = kind) afts)])"

definition renders :: "string \<Rightarrow> flow_dict \<Rightarrow> bool" where
  "renders kind rule = (case fst (build_flow_expr_str rule kind) of Inr s \<Rightarrow> True | Inl e \<Rightarrow> False)"

definition rendered :: "string \<Rightarrow> flow_dict \<Rightarrow> string" where
  "rendered kind rule = (case fst (build_flow_expr_str rule kind) of Inr s \<Rightarrow> s | Inl e \<Rightarrow> [])"

definition batch_command :: "bridge \<Rightarrow> string \<Rightarrow> flow_dict list \<Rightarrow> command" where
  "batch_command b kind rules =
     \<lparr>argv = [''ovs-ofctl'', kind @ ''-flows'', br_name b, ''-''], helper = root_helper b,
      process_input = Some (py_join newline (map (rendered kind) rules))\<rparr>"

definition batch_commands :: "bridge \<Rightarrow> string \<Rightarrow> flow_dict list \<Rightarrow> command list" where
  "batch_commands b kind rules = (if rules = [] then [] else [batch_command b kind rules])"

definition default_weight :: "string \<Rightarrow> nat" where
  "default_weight k = (if k = ''add'' then 0 else if k = ''mod'' then 1 else 2)"

text \<open>
  The order in which \<^verbatim>\<open>apply_flows\<close> goes through the buffer: sorted by weight,
  or as submitted when \<^verbatim>\<open>full_ordered\<close> is set.
\<close>

definition flush_order :: "deferred_bridge \<Rightarrow> error + (string \<times> flow_dict) list" where
  "flush_order self =
     (if \<not> full_ordered self then sort_by_weight (weights self) (action_flow_tuples self)
      else Inr (action_flow_tuples self))"


section \<open>Reading the database\<close>

definition dquote :: string where
  "dquote = [CHR 0x22]"

definition quoted :: "string \<Rightarrow> string" where
  "quoted s = dquote @ s @ dquote"

text \<open>
  \<^verbatim>\<open>db_str_to_map\<close>.  An entry that passes the \<^verbatim>\<open>find\<close> test contains
  \<^verbatim>\<open>=\<close>, so its split has at least two pieces (lemma \<open>split_eq_length\<close> below) and
  \<^verbatim>\<open>arr[1]\<close> exists: the last case of the model is never taken.
\<close>

definition db_str_to_map :: "string \<Rightarrow> (string \<rightharpoonup> string)" where
  "db_str_to_map full_str =
     foldl (\<lambda>ret e.
              if CHR ''='' \<notin> set e then ret
              else (case py_split ''='' e of
                      k # v # rest \<Rightarrow> ret(k \<mapsto> py_strip dquote v)
                    | _ \<Rightarrow> ret))
       Map.empty (py_split '', '' (py_strip ''{}'' full_str))"

text \<open>
  The decoding as the specification words it: one surrounding pair of braces is removed,
  the text is split on \<open>", "\<close>, an entry without \<^verbatim>\<open>=\<close> is skipped, and an entry is
  cut at its first \<^verbatim>\<open>=\<close> into the key and the value, whose surrounding double quotes
  are stripped.
\<close>

definition strip_brace_pair :: "string \<Rightarrow> string" where
  "strip_brace_pair s =
     (if 2 \<le> length s \<and> hd s = CHR ''{'' \<and> last s = CHR ''}'' then butlast (tl s) else s)"

definition entries_to_map :: "string list \<Rightarrow> (string \<rightharpoonup> string)" where
  "entries_to_map es =
     foldl (\<lambda>ret e.
              if CHR ''='' \<notin> set e then ret
              else ret(takeWhile (\<lambda>c. c \<noteq> CHR ''='') e \<mapsto>
                       py_strip dquote (tl (dropWhile (\<lambda>c. c \<noteq> CHR ''='') e))))
       Map.empty es"

definition db_str_to_map_spec :: "string \<Rightarrow> (string \<rightharpoonup> string)" where
  "db_str_to_map_spec s = entries_to_map (py_split '', '' (strip_brace_pair s))"

text \<open>
  The text of an entry before its first \<^verbatim>\<open>=\<close>, and the text after it.
\<close>

definition entry_key :: "string \<Rightarrow> string" where
  "entry_key e = takeWhile (\<lambda>c. c \<noteq> CHR ''='') e"

definition entry_rest :: "string \<Rightarrow> string" where
  "entry_rest e = tl (dropWhile (\<lambda>c. c \<noteq> CHR ''='') e)"

text \<open>\<^verbatim>\<open>db_get_val\<close> returns \<^verbatim>\<open>None\<close> when there is no output.\<close>

definition db_get_val ::
  "executor \<Rightarrow> bridge \<Rightarrow> string \<Rightarrow> string \<Rightarrow> string \<Rightarrow> bool \<Rightarrow> world \<Rightarrow> (error + string option) \<times> world" where
  "db_get_val ex self table recd column check_error w =
     (case run_vsctl ex self [''get'', table, recd, column] check_error w of
        (Inl e, w') \<Rightarrow> (Inl e, w')
      | (Inr None, w') \<Rightarrow> (Inr None, w')
      | (Inr (Some out), w') \<Rightarrow>
          (if out \<noteq> [] then Inr (Some (py_rstrip [CHR 0x0A, CHR 0x0D] out)) else Inr None, w'))"



section \<open>Waiting for the ofport\<close>

text \<open>
  \<^verbatim>\<open>int(result)\<close> on what \<^verbatim>\<open>db_get_val\<close> returns: \<^verbatim>\<open>TypeError\<close> on
  \<^verbatim>\<open>None\<close>, \<^verbatim>\<open>ValueError\<close> on a string that is not a decimal integer with an
  optional sign, surrounding white space allowed.
\<close>

definition is_digit :: "char \<Rightarrow> bool" where
  "is_digit c = (c \<in> set ''0123456789'')"

definition digit_value :: "char \<Rightarrow> int" where
  "digit_value c = int (length (takeWhile (\<lambda>d. d \<noteq> c) ''0123456789''))"

definition digits_value :: "string \<Rightarrow> int" where
  "digits_value ds = foldl (\<lambda>n c. 10 * n + digit_value c) 0 ds"

definition py_int :: "string option \<Rightarrow> error + int" where
  "py_int x =
     (case x of
        None \<Rightarrow> Inl TypeError
      | Some s \<Rightarrow>
          (let t = py_strip whitespace s;
               neg = (t \<noteq> [] \<and> hd t = CHR ''-'');
               ds = (if t \<noteq> [] \<and> (hd t = CHR ''-'' \<or> hd t = CHR ''+'') then tl t else t)
           in if ds \<noteq> [] \<and> list_all is_digit ds
              then Inr (if neg then - digits_value ds else digits_value ds)
              else Inl ValueError))"

definition ofport_result_pending :: "string option \<Rightarrow> bool" where
  "ofport_result_pending result = (case py_int result of Inr i \<Rightarrow> False | Inl e \<Rightarrow> True)"

text \<open>The function \<^verbatim>\<open>_get_port_ofport\<close> as written, before the decorator wraps it.\<close>

definition poll_ofport ::
  "executor \<Rightarrow> bridge \<Rightarrow> string \<Rightarrow> world \<Rightarrow> (error + string option) \<times> world" where
  "poll_ofport ex self pname w = db_get_val ex self ''Interface'' pname ''ofport'' False w"

text \<open>
  Modelled from the spec: the retry loop that \<^verbatim>\<open>_ofport_retry\<close> obtains from the
  \<^verbatim>\<open>retrying\<close> package, which is not in the file.  The wrapped function is polled; a
  result that is not pending is returned; otherwise, once the time since the start has
  reached the deadline \<^verbatim>\<open>vsctl_timeout * 1000\<close>, \<^verbatim>\<open>RetryError\<close> is raised, and
  before that the loop sleeps and polls again.  The wait starts at 10 ms and doubles up to
  the cap of 1000 ms; \<open>k\<close> counts the waits so far.  An exception of the wrapped function is
  not retried.  Sleeping moves the clock by the length of the wait.
\<close>

definition wait_ms :: "nat \<Rightarrow> nat" where
  "wait_ms k = min (10 * 2 ^ k) 1000"

function retry_get_port_ofport ::
  "executor \<Rightarrow> bridge \<Rightarrow> string \<Rightarrow> nat \<Rightarrow> nat \<Rightarrow> world \<Rightarrow> (error + string option) \<times> world" where
  "retry_get_port_ofport ex self pname start k w =
     (case poll_ofport ex self pname w of
        (Inl e, w1) \<Rightarrow> (Inl e, w1)
      | (Inr result, w1) \<Rightarrow>
          if \<not> ofport_result_pending result then (Inr result, w1)
          else if vsctl_timeout self * 1000 \<le> int (clock w1 - start) then (Inl RetryError, w1)
          else retry_get_port_ofport ex self pname start (Suc k)
                 (w1\<lparr>clock := clock w1 + wait_ms k\<rparr>))"
  by pat_completeness auto
termination
proof (relation "measure (\<lambda>(ex, self, pname, start, k, w).
                   nat (vsctl_timeout self * 1000) + start - clock w)", goal_cases)
  case 1
  show ?case by simp
next
  case (2 ex self pname start k w x y b)
  from 2(1) have "y = snd (poll_ofport ex self pname w)"
    by (metis snd_conv)
  then have mono: "clock w \<le> clock y"
    by (simp add: poll_ofport_def db_get_val_def run_vsctl_def execute_def Let_def
          split: prod.splits sum.splits option.splits)
  have pos: "0 < wait_ms k"
    by (simp add: wait_ms_def)
  from 2(4) have "clock y < nat (vsctl_timeout self * 1000) + start"
    by linarith
  with mono pos show ?case
    by simp
qed

declare retry_get_port_ofport.simps [simp del]

text \<open>\<^verbatim>\<open>get_port_ofport\<close>: the timeout of the retry loop becomes the invalid ofport.\<close>

definition get_port_ofport ::
  "executor \<Rightarrow> bridge \<Rightarrow> string \<Rightarrow> world \<Rightarrow> (error + string option) \<times> world" where
  "get_port_ofport ex self pname w =
     (case retry_get_port_ofport ex self pname (clock w) 0 w of
        (Inl RetryError, w') \<Rightarrow> (Inr (Some INVALID_OFPORT), w')
      | (Inl e, w') \<Rightarrow> (Inl e, w')
      | (Inr ofp, w') \<Rightarrow> (Inr ofp, w'))"

section \<open>Ports\<close>

definition delete_port :: "executor \<Rightarrow> bridge \<Rightarrow> string \<Rightarrow> world \<Rightarrow> world" where
  "delete_port ex self pname w =
     snd (run_vsctl ex self [''--'', ''--if-exists'', ''del-port'', br_name self, pname] False w)"

definition add_port_args :: "bridge \<Rightarrow> string \<Rightarrow> (string \<times> pyval) list \<Rightarrow> string list" where
  "add_port_args self pname interface_options =
     [''--'', ''--may-exist'', ''add-port'', br_name self, pname]
     @ (if interface_options \<noteq> []
        then [''--'', ''set'', ''Interface'', pname]
             @ map (\<lambda>kv. fst kv @ ''='' @ py_str (snd kv)) interface_options
        else [])"

definition add_port ::
  "executor \<Rightarrow> bridge \<Rightarrow> string \<Rightarrow> (string \<times> pyval) list \<Rightarrow> world \<Rightarrow> (error + string option) \<times> world" where
  "add_port ex self pname interface_options w =
     (let w1 = snd (run_vsctl ex self (add_port_args self pname interface_options) False w)
      in case get_port_ofport ex self pname w1 of
           (Inl e, w2) \<Rightarrow> (Inl e, w2)
         | (Inr ofp, w2) \<Rightarrow>
             if ofp = Some INVALID_OFPORT then (Inr ofp, delete_port ex self pname w2)
             else (Inr ofp, w2))"

section \<open>VIF ports\<close>


text \<open>\<^verbatim>\<open>get_xapi_iface_id\<close> raises what the executor raises.\<close>

definition get_xapi_iface_id ::
  "executor \<Rightarrow> bridge \<Rightarrow> string \<Rightarrow> world \<Rightarrow> (error + string) \<times> world" where
  "get_xapi_iface_id ex self xs_vif_uuid w =
     (case execute ex \<lparr>argv = [''xe'', ''vif-param-get'', ''param-name=other-config'',
                                ''param-key=nicira-iface-id'', ''uuid='' @ xs_vif_uuid],
                        helper = root_helper self, process_input = None\<rparr> w of
        (Inl e, w') \<Rightarrow> (Inl e, w')
      | (Inr out, w') \<Rightarrow> (Inr (py_strip whitespace out), w'))"




text \<open>
  \<^verbatim>\<open>get_vif_port_set\<close> reads a JSON table.  \<^verbatim>\<open>jsonutils.loads\<close> is outside the
  file: the decoder is a parameter that gives the rows of \<^verbatim>\<open>'data'\<close>, each row with
  the pairs of its \<^verbatim>\<open>external_ids\<close> cell (\<^verbatim>\<open>row[0][1]\<close>) and its
  \<^verbatim>\<open>ofport\<close> cell (\<^verbatim>\<open>row[1]\<close>).  A cell is an integer, a Boolean, a string or a
  list, as JSON has them.
\<close>

datatype json = JInt int | JBool bool | JStr string | JList "json list"

type_synonym iface_row = "(string \<times> string) list \<times> json"

text \<open>\<^verbatim>\<open>isinstance(x, numbers.Integral)\<close> holds of integers and of Booleans, and a
  Boolean compares as 0 or 1.\<close>

fun is_Integral :: "json \<Rightarrow> bool" where
  "is_Integral (JInt i) = True"
| "is_Integral (JBool b) = True"
| "is_Integral x = False"

fun integral_value :: "json \<Rightarrow> int" where
  "integral_value (JInt i) = i"
| "integral_value (JBool b) = (if b then 1 else 0)"
| "integral_value x = 0"

text \<open>The loop over the rows.  \<^verbatim>\<open>dict(row[0][1])\<close> keeps the last value of a repeated
  key.\<close>

fun vif_port_set_rows ::
  "executor \<Rightarrow> bridge \<Rightarrow> iface_row list \<Rightarrow> string set \<Rightarrow> world \<Rightarrow> (error + string set) \<times> world" where
  "vif_port_set_rows ex self [] edge_ports w = (Inr edge_ports, w)"
| "vif_port_set_rows ex self (row # rows) edge_ports w =
     (let external_ids = map_of (rev (fst row)); ofp = snd row
      in if \<not> is_Integral ofp then vif_port_set_rows ex self rows edge_ports w
         else if integral_value ofp < 1 then vif_port_set_rows ex self rows edge_ports w
         else if external_ids ''attached-mac'' \<noteq> None then
           (if external_ids ''iface-id'' \<noteq> None then
              vif_port_set_rows ex self rows (insert (the (external_ids ''iface-id'')) edge_ports) w
            else if external_ids ''xs-vif-uuid'' \<noteq> None then
              (case get_xapi_iface_id ex self (the (external_ids ''xs-vif-uuid'')) w of
                 (Inl e, w') \<Rightarrow> (Inl e, w')
               | (Inr iface_id, w') \<Rightarrow>
                   vif_port_set_rows ex self rows (insert iface_id edge_ports) w')
            else vif_port_set_rows ex self rows edge_ports w)
         else vif_port_set_rows ex self rows edge_ports w)"



text \<open>
  For the statements about the wait: the world in which poll number \<open>n\<close> (from 0) is
  made when every poll before it was pending and in time, \<open>k\<close> being the number of waits
  before the first of them; the value that poll returns; and the commands of a poll, of the
  creation and of the deletion of a port.
\<close>

fun world_at :: "executor \<Rightarrow> bridge \<Rightarrow> string \<Rightarrow> nat \<Rightarrow> nat \<Rightarrow> world \<Rightarrow> world" where
  "world_at ex self pname k 0 w = w"
| "world_at ex self pname k (Suc n) w =
     world_at ex self pname (Suc k) n
       ((snd (poll_ofport ex self pname w))
          \<lparr>clock := clock (snd (poll_ofport ex self pname w)) + wait_ms k\<rparr>)"

definition polled :: "executor \<Rightarrow> bridge \<Rightarrow> string \<Rightarrow> nat \<Rightarrow> world \<Rightarrow> string option" where
  "polled ex self pname n w =
     (case fst (poll_ofport ex self pname (world_at ex self pname 0 n w)) of
        Inr r \<Rightarrow> r | Inl e \<Rightarrow> None)"

definition clock_after :: "executor \<Rightarrow> bridge \<Rightarrow> string \<Rightarrow> nat \<Rightarrow> world \<Rightarrow> nat" where
  "clock_after ex self pname n w =
     clock (snd (poll_ofport ex self pname (world_at ex self pname 0 n w)))"

definition vsctl_command :: "bridge \<Rightarrow> string list \<Rightarrow> command" where
  "vsctl_command self args =
     \<lparr>argv = [''ovs-vsctl'', ''--timeout='' @ show_int (vsctl_timeout self)] @ args,
      helper = root_helper self, process_input = None\<rparr>"

definition poll_command :: "bridge \<Rightarrow> string \<Rightarrow> command" where
  "poll_command self pname = vsctl_command self [''get'', ''Interface'', pname, ''ofport'']"

definition del_port_command :: "bridge \<Rightarrow> string \<Rightarrow> command" where
  "del_port_command self pname =
     vsctl_command self [''--'', ''--if-exists'', ''del-port'', br_name self, pname]"

definition issued_since :: "world \<Rightarrow> world \<Rightarrow> command list" where
  "issued_since w w' = drop (length (issued w)) (issued w')"

text \<open>An executor that answers the first two commands with an unset value and every
  later one with 5, each in one millisecond.\<close>

definition late_executor :: executor where
  "late_executor w c = (if length (issued w) < 2 then Inr ''[]'' else Inr ''5'', 1)"

text \<open>The world right after the command of \<^verbatim>\<open>add_port\<close> that creates the port.\<close>

definition created :: "executor \<Rightarrow> bridge \<Rightarrow> string \<Rightarrow> (string \<times> pyval) list \<Rightarrow> world \<Rightarrow> world" where
  "created ex self pname interface_options w =
     snd (run_vsctl ex self (add_port_args self pname interface_options) False w)"


text \<open>
  For the statements about the VIF ports: an ofport cell that is a positive integer, the
  dictionary of a row's external ids, and an example: a switch with the one port
  \<open>tap0\<close>, whose external ids carry an interface id and a MAC address and whose ofport is
  \<open>-1\<close>, and a decoded table of three rows.
\<close>


definition positive_ofport :: "json \<Rightarrow> bool" where
  "positive_ofport ofp = (is_Integral ofp \<and> 1 \<le> integral_value ofp)"








section \<open>Properties of \<^verbatim>\<open>_build_flow_expr_str\<close>\<close>



lemma list_all_flow_item:
  "(\<forall>kv\<in>set d. fst kv = ''proto'' \<longrightarrow> is_PyStr (snd kv)) \<Longrightarrow> list_all is_PyStr (map flow_item d)"
  by (induction d) (auto)

lemma py_str_flow_item:
  "(\<forall>kv\<in>set d. fst kv = ''proto'' \<longrightarrow> is_PyStr (snd kv)) \<Longrightarrow> map py_str (map flow_item d) = map field_token d"
  by (induction d) (auto simp: field_token_def)

lemma del_key_subset: "set (del_key k d) \<subseteq> set d"
  by (auto simp: del_key_def)

lemma map_of_del_key: "map_of (del_key k d) k' = (if k' = k then None else map_of d k')"
  by (induction d) (auto simp: del_key_def)

lemma del_key_absent: "map_of d k = None \<Longrightarrow> del_key k d = d"
  by (induction d) (auto simp: del_key_def split: if_splits)

lemma del_key_commute: "del_key a (del_key b d) = del_key b (del_key a d)"
  by (induction d) (auto simp: del_key_def)

lemma snd_dict_pop: "snd (dict_pop k dflt d) = del_key k d"
  by (auto simp: dict_pop_def del_key_absent split: option.splits)

lemma fst_dict_pop: "py_str (fst (dict_pop k (PyStr dflt) d)) = value_or d k dflt"
  by (auto simp: dict_pop_def value_or_def split: option.splits)


lemma value_or_del_key: "k' \<noteq> k \<Longrightarrow> value_or (del_key k d) k' dflt = value_or d k' dflt"
  by (simp add: value_or_def map_of_del_key)

lemma build_add:
  "build_flow_expr_str d ''add'' =
     (case map_of d ''actions'' of
        None \<Rightarrow> (Inl (InvalidInput msg_actions), del3 d)
      | Some a \<Rightarrow>
          (py_join_vals '',''
             ([PyStr (''hard_timeout='' @ value_or d ''hard_timeout'' ''0''),
               PyStr (''idle_timeout='' @ value_or d ''idle_timeout'' ''0''),
               PyStr (''priority='' @ value_or d ''priority'' ''1'')]
              @ map flow_item (del_key ''actions'' (del3 d)) @ [PyStr (''actions='' @ py_str a)]),
           del_key ''actions'' (del3 d)))"
  unfolding build_flow_expr_str_def del3_def
  by (simp add: Let_def split_beta snd_dict_pop fst_dict_pop map_of_del_key value_or_del_key
           split: option.splits)

lemma build_other:
  "cmd \<noteq> ''add'' \<Longrightarrow> build_flow_expr_str d cmd =
     (if has_key d ''priority'' then (Inl (InvalidInput msg_priority), d)
      else if cmd = ''del'' then (py_join_vals '','' (map flow_item d), d)
      else (case map_of d ''actions'' of
              None \<Rightarrow> (Inl (InvalidInput msg_actions), d)
            | Some a \<Rightarrow>
                (py_join_vals '','' (map flow_item (del_key ''actions'' d) @ [PyStr (''actions='' @ py_str a)]),
                 del_key ''actions'' d)))"
  unfolding build_flow_expr_str_def
  by (simp add: Let_def split: option.splits)

lemma del_key_filter4:
  "del_key ''actions'' (del3 d) =
     filter (\<lambda>kv. fst kv \<notin> {''hard_timeout'', ''idle_timeout'', ''priority'', ''actions''}) d"
  unfolding del3_def del_key_def by (induction d) auto

lemma join_vals_ok:
  "list_all is_PyStr items \<Longrightarrow> py_join_vals sep items = Inr (py_join sep (map py_str items))"
  by (simp add: py_join_vals_def)

lemma proto_filter:
  "(\<forall>kv\<in>set d. fst kv = ''proto'' \<longrightarrow> is_PyStr (snd kv)) \<Longrightarrow>
   (\<forall>kv\<in>set (filter P d). fst kv = ''proto'' \<longrightarrow> is_PyStr (snd kv))"
  by auto

lemma join_flow_items:
  assumes "\<forall>kv\<in>set d. fst kv = ''proto'' \<longrightarrow> is_PyStr (snd kv)"
  shows "py_join_vals sep (map PyStr pre @ map flow_item d @ map PyStr post) =
           Inr (py_join sep (pre @ map field_token d @ post))"
proof -
  have "list_all is_PyStr (map PyStr pre @ map flow_item d @ map PyStr post)"
    using list_all_flow_item [OF assms] by (auto simp: list_all_iff)
  moreover have "map py_str (map PyStr pre @ map flow_item d @ map PyStr post) =
      pre @ map field_token d @ post"
    using py_str_flow_item [OF assms] by (simp add: comp_def)
  ultimately show ?thesis by (simp only: join_vals_ok)
qed

text \<open>
  Claim C3, as amended.  When the value of \<^verbatim>\<open>proto\<close>, if present, is a string:
  an addition with \<^verbatim>\<open>actions\<close> renders \<open>hard_timeout=\<close>, \<open>idle_timeout=\<close>,
  \<open>priority=\<close> (defaults 0, 0, 1), then the remaining fields in iteration order as
  comma-joined \<open>key=value\<close> tokens (\<^verbatim>\<open>proto\<close> as its bare value), then
  \<open>actions=\<close> last; a modification without \<^verbatim>\<open>priority\<close> and with
  \<^verbatim>\<open>actions\<close> renders the remaining fields and then \<open>actions=\<close> last; a deletion
  without \<^verbatim>\<open>priority\<close> renders every field of the rule in iteration order, an
  \<^verbatim>\<open>actions\<close> key being one of them and in no special place.
\<close>

theorem build_flow_expr_str_grammar:
  "(\<forall>kv\<in>set d. fst kv = ''proto'' \<longrightarrow> is_PyStr (snd kv)) \<Longrightarrow>
   (has_key d ''actions'' \<longrightarrow>
      fst (build_flow_expr_str d ''add'') =
        Inr (py_join '',''
          ([''hard_timeout='' @ value_or d ''hard_timeout'' ''0'',
            ''idle_timeout='' @ value_or d ''idle_timeout'' ''0'',
            ''priority='' @ value_or d ''priority'' ''1'']
           @ map field_token
               (filter (\<lambda>kv. fst kv \<notin> {''hard_timeout'', ''idle_timeout'', ''priority'', ''actions''}) d)
           @ [''actions='' @ value_or d ''actions'' []]))) \<and>
   (\<not> has_key d ''priority'' \<and> has_key d ''actions'' \<longrightarrow>
      fst (build_flow_expr_str d ''mod'') =
        Inr (py_join '',''
          (map field_token (filter (\<lambda>kv. fst kv \<noteq> ''actions'') d)
           @ [''actions='' @ value_or d ''actions'' []]))) \<and>
   (\<not> has_key d ''priority'' \<longrightarrow>
      fst (build_flow_expr_str d ''del'') = Inr (py_join '','' (map field_token d)))"
proof -
  assume proto: "\<forall>kv\<in>set d. fst kv = ''proto'' \<longrightarrow> is_PyStr (snd kv)"
  let ?rest = "filter (\<lambda>kv. fst kv \<notin> {''hard_timeout'', ''idle_timeout'', ''priority'', ''actions''}) d"
  let ?noact = "filter (\<lambda>kv. fst kv \<noteq> ''actions'') d"
  have p_rest: "\<forall>kv\<in>set ?rest. fst kv = ''proto'' \<longrightarrow> is_PyStr (snd kv)"
    using proto by simp
  have p_noact: "\<forall>kv\<in>set ?noact. fst kv = ''proto'' \<longrightarrow> is_PyStr (snd kv)"
    using proto by simp
  have add: "has_key d ''actions'' \<longrightarrow>
      fst (build_flow_expr_str d ''add'') =
        Inr (py_join '',''
          ([''hard_timeout='' @ value_or d ''hard_timeout'' ''0'',
            ''idle_timeout='' @ value_or d ''idle_timeout'' ''0'',
            ''priority='' @ value_or d ''priority'' ''1'']
           @ map field_token ?rest @ [''actions='' @ value_or d ''actions'' []]))"
  proof
    assume "has_key d ''actions''"
    then obtain a where a: "map_of d ''actions'' = Some a"
      by (auto simp: has_key_def)
    have "fst (build_flow_expr_str d ''add'') =
        py_join_vals '',''
          (map PyStr [''hard_timeout='' @ value_or d ''hard_timeout'' ''0'',
                      ''idle_timeout='' @ value_or d ''idle_timeout'' ''0'',
                      ''priority='' @ value_or d ''priority'' ''1'']
           @ map flow_item ?rest @ map PyStr [''actions='' @ value_or d ''actions'' []])"
      by (simp add: build_add a del_key_filter4 value_or_def)
    then show "fst (build_flow_expr_str d ''add'') =
        Inr (py_join '',''
          ([''hard_timeout='' @ value_or d ''hard_timeout'' ''0'',
            ''idle_timeout='' @ value_or d ''idle_timeout'' ''0'',
            ''priority='' @ value_or d ''priority'' ''1'']
           @ map field_token ?rest @ [''actions='' @ value_or d ''actions'' []]))"
      by (simp only: join_flow_items [OF p_rest])
  qed
  have mod: "\<not> has_key d ''priority'' \<and> has_key d ''actions'' \<longrightarrow>
      fst (build_flow_expr_str d ''mod'') =
        Inr (py_join '','' (map field_token ?noact @ [''actions='' @ value_or d ''actions'' []]))"
  proof
    assume h: "\<not> has_key d ''priority'' \<and> has_key d ''actions''"
    then obtain a where a: "map_of d ''actions'' = Some a"
      by (auto simp: has_key_def)
    have "fst (build_flow_expr_str d ''mod'') =
        py_join_vals '','' (map PyStr [] @ map flow_item ?noact
           @ map PyStr [''actions='' @ value_or d ''actions'' []])"
      using h by (simp add: build_other a del_key_def value_or_def)
    then show "fst (build_flow_expr_str d ''mod'') =
        Inr (py_join '','' (map field_token ?noact @ [''actions='' @ value_or d ''actions'' []]))"
      by (simp only: join_flow_items [OF p_noact] append_Nil)
  qed
  have del: "\<not> has_key d ''priority'' \<longrightarrow>
      fst (build_flow_expr_str d ''del'') = Inr (py_join '','' (map field_token d))"
  proof
    assume h: "\<not> has_key d ''priority''"
    have "fst (build_flow_expr_str d ''del'') =
        py_join_vals '','' (map PyStr [] @ map flow_item d @ map PyStr [])"
      using h by (simp add: build_other)
    then show "fst (build_flow_expr_str d ''del'') = Inr (py_join '','' (map field_token d))"
      by (simp only: join_flow_items [OF proto] append_Nil append_Nil2)
  qed
  from add mod del show ?thesis by blast
qed

text \<open>The theorem at one rule for each kind.\<close>

theorem build_flow_expr_str_grammar_witness:
  "fst (build_flow_expr_str
         [(''in_port'', PyInt 12), (''proto'', PyStr ''arp''), (''actions'', PyStr ''drop'')] ''add'') =
     Inr ''hard_timeout=0,idle_timeout=0,priority=1,in_port=12,arp,actions=drop'' \<and>
   fst (build_flow_expr_str
         [(''in_port'', PyInt 12), (''proto'', PyStr ''arp''), (''actions'', PyStr ''drop'')] ''mod'') =
     Inr ''in_port=12,arp,actions=drop'' \<and>
   fst (build_flow_expr_str [(''in_port'', PyInt 12), (''proto'', PyStr ''arp'')] ''del'') =
     Inr ''in_port=12,arp''"
proof -
  have s12: "show_int 12 = ''12''"
    by (simp add: show_int_def show_nat.simps digit_char_def)
  have p1: "\<forall>kv\<in>set [(''in_port'', PyInt 12), (''proto'', PyStr ''arp''), (''actions'', PyStr ''drop'')].
      fst kv = ''proto'' \<longrightarrow> is_PyStr (snd kv)"
    by simp
  have p2: "\<forall>kv\<in>set [(''in_port'', PyInt 12), (''proto'', PyStr ''arp'')].
      fst kv = ''proto'' \<longrightarrow> is_PyStr (snd kv)"
    by simp
  show ?thesis
    using build_flow_expr_str_grammar [OF p1] build_flow_expr_str_grammar [OF p2]
    by (simp add: has_key_def value_or_def field_token_def s12)
qed

text \<open>
  Claim C3 as stated fails for a deletion whose rule has \<^verbatim>\<open>actions\<close>: the key is
  not consumed and is rendered where the iteration meets it, here before \<open>nw_dst\<close>,
  so \<open>actions=\<close> is not last.
\<close>

theorem build_flow_expr_str_del_actions_counterexample:
  "fst (build_flow_expr_str [(''actions'', PyStr ''drop''), (''nw_dst'', PyStr ''10.0.0.1'')] ''del'') =
     Inr ''actions=drop,nw_dst=10.0.0.1'' \<and>
   fst (build_flow_expr_str [(''actions'', PyStr ''drop''), (''nw_dst'', PyStr ''10.0.0.1'')] ''del'') \<noteq>
     Inr (py_join '','' (map field_token [(''nw_dst'', PyStr ''10.0.0.1'')] @ [''actions=drop'']))"
  by (simp add: build_flow_expr_str_def has_key_def py_join_vals_def)

section \<open>Validation and mutation\<close>

lemma build_priority_error:
  "has_key d ''priority'' \<Longrightarrow> cmd \<noteq> ''add'' \<Longrightarrow>
   fst (build_flow_expr_str d cmd) = Inl (InvalidInput msg_priority)"
  by (simp add: build_other)

lemma build_actions_error:
  "\<not> has_key d ''actions'' \<Longrightarrow> cmd \<noteq> ''del'' \<Longrightarrow>
   fst (build_flow_expr_str d cmd) = Inl (InvalidInput (validation_msg d cmd))"
  by (cases "cmd = ''add''") (auto simp: build_add build_other has_key_def validation_msg_def)

lemma invalid_rule_error:
  "invalid_rule d cmd \<Longrightarrow> fst (build_flow_expr_str d cmd) = Inl (InvalidInput (validation_msg d cmd))"
  unfolding invalid_rule_def
  using build_priority_error [of d cmd] build_actions_error [of d cmd]
  by (auto simp: validation_msg_def)

lemma build_all_ok_each:
  "fst (build_all action kws) = Inr ss \<Longrightarrow> d \<in> set kws \<Longrightarrow>
   \<exists>s. fst (build_flow_expr_str d action) = Inr s"
proof (induction kws arbitrary: ss)
  case Nil
  then show ?case by simp
next
  case (Cons kw kws)
  then show ?case
    by (auto split: prod.splits sum.splits)
qed

lemma build_all_error:
  "d \<in> set kws \<Longrightarrow> fst (build_flow_expr_str d action) = Inl e \<Longrightarrow>
   \<exists>e'. fst (build_all action kws) = Inl e'"
proof (cases "fst (build_all action kws)")
  case (Inl a)
  then show ?thesis by blast
next
  case (Inr ss)
  assume "d \<in> set kws" "fst (build_flow_expr_str d action) = Inl e"
  with build_all_ok_each [OF Inr] show ?thesis by fastforce
qed

lemma do_action_flows_error:
  "fst (build_all action kws) = Inl e \<Longrightarrow>
   fst (do_action_flows ex b action kws w) = Inl e \<and> snd (snd (do_action_flows ex b action kws w)) = w"
  by (auto simp: do_action_flows_def split: prod.splits sum.splits)

text \<open>
  Claim C4.  A rule with \<^verbatim>\<open>priority\<close> rendered for \<^verbatim>\<open>del\<close> or
  \<^verbatim>\<open>mod\<close> raises \<^verbatim>\<open>InvalidInput\<close>; a rule without \<^verbatim>\<open>actions\<close>
  rendered for \<^verbatim>\<open>add\<close> or \<^verbatim>\<open>mod\<close> raises \<^verbatim>\<open>InvalidInput\<close>; and
  \<^verbatim>\<open>do_action_flows\<close> on a list that holds such a rule raises with the world
  unchanged, so no command has reached the executor; for the rule alone, as
  \<^verbatim>\<open>add_flow\<close>, \<^verbatim>\<open>mod_flow\<close> and \<^verbatim>\<open>delete_flows\<close> pass it, the
  exception is that validation error.
\<close>

theorem invalid_rule_rejected:
  "(has_key d ''priority'' \<and> (cmd = ''del'' \<or> cmd = ''mod'') \<longrightarrow>
      fst (build_flow_expr_str d cmd) = Inl (InvalidInput msg_priority)) \<and>
   (\<not> has_key d ''actions'' \<and> (cmd = ''add'' \<or> cmd = ''mod'') \<longrightarrow>
      fst (build_flow_expr_str d cmd) = Inl (InvalidInput (validation_msg d cmd))) \<and>
   (d \<in> set kwargs_list \<and> invalid_rule d cmd \<longrightarrow>
      (\<exists>e. fst (do_action_flows ex b cmd kwargs_list w) = Inl e) \<and>
      snd (snd (do_action_flows ex b cmd kwargs_list w)) = w) \<and>
   (invalid_rule d cmd \<longrightarrow>
      fst (do_action_flows ex b cmd [d] w) = Inl (InvalidInput (validation_msg d cmd)))"
proof -
  have p1: "has_key d ''priority'' \<and> (cmd = ''del'' \<or> cmd = ''mod'') \<longrightarrow>
      fst (build_flow_expr_str d cmd) = Inl (InvalidInput msg_priority)"
    using build_priority_error [of d cmd] by auto
  have p2: "\<not> has_key d ''actions'' \<and> (cmd = ''add'' \<or> cmd = ''mod'') \<longrightarrow>
      fst (build_flow_expr_str d cmd) = Inl (InvalidInput (validation_msg d cmd))"
    using build_actions_error [of d cmd] by auto
  have p3: "d \<in> set kwargs_list \<and> invalid_rule d cmd \<longrightarrow>
      (\<exists>e. fst (do_action_flows ex b cmd kwargs_list w) = Inl e) \<and>
      snd (snd (do_action_flows ex b cmd kwargs_list w)) = w"
  proof
    assume h: "d \<in> set kwargs_list \<and> invalid_rule d cmd"
    then have "fst (build_flow_expr_str d cmd) = Inl (InvalidInput (validation_msg d cmd))"
      using invalid_rule_error by blast
    with h obtain e' where "fst (build_all cmd kwargs_list) = Inl e'"
      using build_all_error by blast
    from do_action_flows_error [OF this]
    show "(\<exists>e. fst (do_action_flows ex b cmd kwargs_list w) = Inl e) \<and>
      snd (snd (do_action_flows ex b cmd kwargs_list w)) = w"
      by blast
  qed
  have p4: "invalid_rule d cmd \<longrightarrow>
      fst (do_action_flows ex b cmd [d] w) = Inl (InvalidInput (validation_msg d cmd))"
  proof
    assume "invalid_rule d cmd"
    then have "fst (build_flow_expr_str d cmd) = Inl (InvalidInput (validation_msg d cmd))"
      using invalid_rule_error by blast
    then show "fst (do_action_flows ex b cmd [d] w) = Inl (InvalidInput (validation_msg d cmd))"
      by (auto simp: do_action_flows_def split: prod.splits sum.splits)
  qed
  from p1 p2 p3 p4 show ?thesis by blast
qed

text \<open>
  The theorem at a deletion with \<^verbatim>\<open>priority\<close> and an addition without
  \<^verbatim>\<open>actions\<close>.
\<close>

theorem invalid_rule_rejected_witness:
  "fst (build_flow_expr_str [(''priority'', PyInt 5)] ''del'') = Inl (InvalidInput msg_priority) \<and>
   fst (build_flow_expr_str [(''in_port'', PyInt 1)] ''add'') = Inl (InvalidInput msg_actions) \<and>
   snd (snd (do_action_flows quiet_executor demo_bridge ''del''
               [[(''in_port'', PyInt 1)], [(''priority'', PyInt 5)]] world0)) = world0 \<and>
   fst (do_action_flows quiet_executor demo_bridge ''add'' [[(''in_port'', PyInt 1)]] world0) =
     Inl (InvalidInput msg_actions)"
  using invalid_rule_rejected [of "[(''priority'', PyInt 5)]" "''del''"
          "[[(''in_port'', PyInt 1)], [(''priority'', PyInt 5)]]" quiet_executor demo_bridge world0]
        invalid_rule_rejected [of "[(''in_port'', PyInt 1)]" "''add''"
          "[[(''in_port'', PyInt 1)]]" quiet_executor demo_bridge world0]
  by (simp add: has_key_def invalid_rule_def validation_msg_def)

lemma snd_build_add:
  "snd (build_flow_expr_str d ''add'') = filter (\<lambda>kv. fst kv \<notin> consumed_keys ''add'') d"
proof (cases "map_of d ''actions''")
  case None
  then have "del_key ''actions'' (del3 d) = del3 d"
    by (simp add: del3_def del_key_absent map_of_del_key)
  with None show ?thesis
    using del_key_filter4 [of d] by (simp add: build_add consumed_keys_def)
next
  case (Some a)
  then show ?thesis
    using del_key_filter4 [of d] by (simp add: build_add consumed_keys_def)
qed

lemma snd_build_other:
  "cmd \<noteq> ''add'' \<Longrightarrow> \<not> has_key d ''priority'' \<Longrightarrow>
   snd (build_flow_expr_str d cmd) = filter (\<lambda>kv. fst kv \<notin> consumed_keys cmd) d"
  by (auto simp: build_other consumed_keys_def del_key_def [symmetric] del_key_absent
           split: option.splits)

lemma snd_build_ok:
  "fst (build_flow_expr_str d cmd) = Inr s \<Longrightarrow>
   snd (build_flow_expr_str d cmd) = filter (\<lambda>kv. fst kv \<notin> consumed_keys cmd) d"
proof (cases "cmd = ''add''")
  case True
  then show ?thesis by (simp add: snd_build_add)
next
  case False
  assume ok: "fst (build_flow_expr_str d cmd) = Inr s"
  with False have "\<not> has_key d ''priority''"
    by (auto simp: build_other split: if_splits)
  with False show ?thesis by (rule snd_build_other)
qed

lemma build_all_ok_dicts:
  "fst (build_all action kws) = Inr ss \<Longrightarrow>
   snd (build_all action kws) = map (filter (\<lambda>kv. fst kv \<notin> consumed_keys action)) kws"
proof (induction kws arbitrary: ss)
  case Nil
  then show ?case by simp
next
  case (Cons kw kws)
  obtain r kw' where b: "build_flow_expr_str kw action = (r, kw')"
    by (cases "build_flow_expr_str kw action")
  obtain rs kws' where bs: "build_all action kws = (rs, kws')"
    by (cases "build_all action kws")
  from Cons.prems b bs obtain s ss' where r: "r = Inr s" and rs: "rs = Inr ss'"
    by (auto split: sum.splits)
  from b r have "kw' = filter (\<lambda>kv. fst kv \<notin> consumed_keys action) kw"
    using snd_build_ok [of kw action s] by simp
  moreover from bs rs have "kws' = map (filter (\<lambda>kv. fst kv \<notin> consumed_keys action)) kws"
    using Cons.IH [of ss'] by simp
  ultimately show ?case
    using b bs r rs by simp
qed

lemma do_action_flows_ok:
  "fst (do_action_flows ex b action kws w) = Inr u \<Longrightarrow> \<exists>ss. fst (build_all action kws) = Inr ss"
  by (auto simp: do_action_flows_def split: prod.splits sum.splits)

lemma do_action_flows_dicts:
  "fst (snd (do_action_flows ex b action kws w)) = snd (build_all action kws)"
  by (auto simp: do_action_flows_def split: prod.splits sum.splits)

lemma build_ok_has_actions:
  "fst (build_flow_expr_str d cmd) = Inr s \<Longrightarrow> cmd \<noteq> ''del'' \<Longrightarrow> has_key d ''actions''"
  using build_actions_error [of d cmd] by auto

text \<open>
  Claim C10.  The dictionary \<^verbatim>\<open>_build_flow_expr_str\<close> leaves behind: for
  \<^verbatim>\<open>add\<close> it has lost \<^verbatim>\<open>hard_timeout\<close>, \<^verbatim>\<open>idle_timeout\<close>,
  \<^verbatim>\<open>priority\<close> and \<^verbatim>\<open>actions\<close>, for \<^verbatim>\<open>mod\<close> it has lost
  \<^verbatim>\<open>actions\<close>, and nothing else has changed.  When \<^verbatim>\<open>do_action_flows\<close>
  returns, every dictionary of its list has lost those keys, and for \<^verbatim>\<open>add\<close> and
  \<^verbatim>\<open>mod\<close> each of them had \<^verbatim>\<open>actions\<close>, so each has changed.
\<close>

theorem build_flow_expr_str_mutates:
  "snd (build_flow_expr_str d ''add'') =
     filter (\<lambda>kv. fst kv \<notin> {''hard_timeout'', ''idle_timeout'', ''priority'', ''actions''}) d \<and>
   (\<not> has_key d ''priority'' \<longrightarrow>
      snd (build_flow_expr_str d ''mod'') = filter (\<lambda>kv. fst kv \<noteq> ''actions'') d) \<and>
   (fst (do_action_flows ex b action kwargs_list w) = Inr () \<longrightarrow>
      fst (snd (do_action_flows ex b action kwargs_list w)) =
        map (filter (\<lambda>kv. fst kv \<notin> consumed_keys action)) kwargs_list \<and>
      (action \<noteq> ''del'' \<longrightarrow>
         (\<forall>kw\<in>set kwargs_list. has_key kw ''actions'' \<and>
            filter (\<lambda>kv. fst kv \<notin> consumed_keys action) kw \<noteq> kw)))"
proof -
  have p1: "snd (build_flow_expr_str d ''add'') =
     filter (\<lambda>kv. fst kv \<notin> {''hard_timeout'', ''idle_timeout'', ''priority'', ''actions''}) d"
    by (simp add: snd_build_add consumed_keys_def)
  have p2: "\<not> has_key d ''priority'' \<longrightarrow>
      snd (build_flow_expr_str d ''mod'') = filter (\<lambda>kv. fst kv \<noteq> ''actions'') d"
    using snd_build_other [of "''mod''" d] by (simp add: consumed_keys_def)
  have p3: "fst (do_action_flows ex b action kwargs_list w) = Inr () \<longrightarrow>
      fst (snd (do_action_flows ex b action kwargs_list w)) =
        map (filter (\<lambda>kv. fst kv \<notin> consumed_keys action)) kwargs_list \<and>
      (action \<noteq> ''del'' \<longrightarrow>
         (\<forall>kw\<in>set kwargs_list. has_key kw ''actions'' \<and>
            filter (\<lambda>kv. fst kv \<notin> consumed_keys action) kw \<noteq> kw))"
  proof
    assume ok: "fst (do_action_flows ex b action kwargs_list w) = Inr ()"
    then obtain ss where ss: "fst (build_all action kwargs_list) = Inr ss"
      using do_action_flows_ok by blast
    have a: "fst (snd (do_action_flows ex b action kwargs_list w)) =
        map (filter (\<lambda>kv. fst kv \<notin> consumed_keys action)) kwargs_list"
      by (simp add: do_action_flows_dicts build_all_ok_dicts [OF ss])
    have b: "action \<noteq> ''del'' \<longrightarrow>
         (\<forall>kw\<in>set kwargs_list. has_key kw ''actions'' \<and>
            filter (\<lambda>kv. fst kv \<notin> consumed_keys action) kw \<noteq> kw)"
    proof (intro impI ballI)
      fix kw assume nd: "action \<noteq> ''del''" and kw: "kw \<in> set kwargs_list"
      from build_all_ok_each [OF ss kw] obtain s where
        s: "fst (build_flow_expr_str kw action) = Inr s" by blast
      have hk: "has_key kw ''actions''"
        using build_ok_has_actions [OF s nd] .
      then obtain a where "map_of kw ''actions'' = Some a"
        by (auto simp: has_key_def)
      then have mem: "(''actions'', a) \<in> set kw"
        by (rule map_of_SomeD)
      have "''actions'' \<in> consumed_keys action"
        using nd by (simp add: consumed_keys_def)
      then have "(''actions'', a) \<notin> set (filter (\<lambda>kv. fst kv \<notin> consumed_keys action) kw)"
        by simp
      with mem have "filter (\<lambda>kv. fst kv \<notin> consumed_keys action) kw \<noteq> kw"
        by metis
      with hk show "has_key kw ''actions'' \<and>
            filter (\<lambda>kv. fst kv \<notin> consumed_keys action) kw \<noteq> kw" by simp
    qed
    from a b show "fst (snd (do_action_flows ex b action kwargs_list w)) =
        map (filter (\<lambda>kv. fst kv \<notin> consumed_keys action)) kwargs_list \<and>
      (action \<noteq> ''del'' \<longrightarrow>
         (\<forall>kw\<in>set kwargs_list. has_key kw ''actions'' \<and>
            filter (\<lambda>kv. fst kv \<notin> consumed_keys action) kw \<noteq> kw))" by simp
  qed
  from p1 p2 p3 show ?thesis by blast
qed

text \<open>
  The theorem at a modification and at an addition that returns.
\<close>

theorem build_flow_expr_str_mutates_witness:
  "snd (build_flow_expr_str [(''in_port'', PyInt 1), (''actions'', PyStr ''drop'')] ''mod'') =
     [(''in_port'', PyInt 1)] \<and>
   fst (snd (do_action_flows quiet_executor demo_bridge ''add''
       [[(''priority'', PyInt 5), (''in_port'', PyInt 1), (''actions'', PyStr ''drop'')]] world0)) =
     [[(''in_port'', PyInt 1)]]"
proof -
  have s: "show_int 5 = ''5''" "show_int 1 = ''1''"
    by (simp_all add: show_int_def show_nat.simps digit_char_def)
  have ok: "fst (do_action_flows quiet_executor demo_bridge ''add''
       [[(''priority'', PyInt 5), (''in_port'', PyInt 1), (''actions'', PyStr ''drop'')]] world0) = Inr ()"
    by (simp add: do_action_flows_def build_add del3_def del_key_def py_join_vals_def)
  show ?thesis
    using build_flow_expr_str_mutates [of "[(''in_port'', PyInt 1), (''actions'', PyStr ''drop'')]"
        quiet_executor demo_bridge "''add''"
        "[[(''priority'', PyInt 5), (''in_port'', PyInt 1), (''actions'', PyStr ''drop'')]]" world0] ok
    by (simp add: has_key_def consumed_keys_def)
qed

section \<open>The deferred bridge\<close>

lemma submit_buffer:
  "foldl submit d calls = d\<lparr>action_flow_tuples := action_flow_tuples d @ tuples_of calls\<rparr>"
proof (induction calls arbitrary: d)
  case Nil
  then show ?case by (simp add: tuples_of_def)
next
  case (Cons c calls)
  show ?case
    by (cases c)
       (simp_all add: Cons.IH tuples_of_def deferred_add_flow_def deferred_mod_flow_def
          deferred_delete_flows_def)
qed

lemma default_weights:
  "weights (DeferredOVSBridge b False default_order) =
     Some (map_of [(''del'', 2), (''mod'', 1), (''add'', 0)])"
  by (simp add: DeferredOVSBridge_def default_order_def upt_rec numeral_2_eq_2)

lemma kind_cases: "call_kind c = ''add'' \<or> call_kind c = ''mod'' \<or> call_kind c = ''del''"
  by (cases c) simp_all

lemma tuples_kind:
  "af \<in> set (tuples_of calls) \<Longrightarrow> fst af = ''add'' \<or> fst af = ''mod'' \<or> fst af = ''del''"
proof -
  assume "af \<in> set (tuples_of calls)"
  then obtain c where "fst af = call_kind c"
    by (auto simp: tuples_of_def)
  with kind_cases [of c] show ?thesis by simp
qed

lemma weight_of_tuple:
  "af \<in> set (tuples_of calls) \<Longrightarrow>
   map_of [(''del'', 2), (''mod'', 1), (''add'', 0::nat)] (fst af) = Some (default_weight (fst af))"
  using tuples_kind [of af calls] by (auto simp: default_weight_def)

lemma find_None_tuples:
  "find (\<lambda>af. map_of [(''del'', 2), (''mod'', 1), (''add'', 0::nat)] (fst af) = None) (tuples_of calls) = None"
  using weight_of_tuple by (fastforce simp: find_None_iff)

lemma sort_key_cong_set:
  "(\<And>x. x \<in> set xs \<Longrightarrow> f x = g x) \<Longrightarrow> sort_key f xs = sort_key g xs"
proof (induction xs)
  case Nil
  then show ?case by simp
next
  case (Cons x xs)
  have eq: "sort_key f xs = sort_key g xs" using Cons by simp
  have "\<And>ys. set ys \<subseteq> set (x # xs) \<Longrightarrow> insort_key f x ys = insort_key g x ys"
  proof -
    fix ys show "set ys \<subseteq> set (x # xs) \<Longrightarrow> insort_key f x ys = insort_key g x ys"
      using Cons.prems by (induction ys) auto
  qed
  then have "insort_key f x (sort_key g xs) = insort_key g x (sort_key g xs)"
    by (simp add: subset_insertI)
  with eq show ?case by simp
qed

lemma sorted3_blocks:
  "sorted (map f ys) \<Longrightarrow> \<forall>y\<in>set ys. f y \<le> (2::nat) \<Longrightarrow>
   ys = filter (\<lambda>y. f y = 0) ys @ filter (\<lambda>y. f y = 1) ys @ filter (\<lambda>y. f y = 2) ys"
proof (induction ys)
  case Nil
  then show ?case by simp
next
  case (Cons y ys)
  have IH: "ys = filter (\<lambda>y. f y = 0) ys @ filter (\<lambda>y. f y = 1) ys @ filter (\<lambda>y. f y = 2) ys"
    using Cons by simp
  have le: "\<forall>z\<in>set ys. f y \<le> f z" using Cons.prems(1) by auto
  have "f y = 0 \<or> f y = 1 \<or> f y = 2" using Cons.prems(2) by fastforce
  then show ?case
  proof (elim disjE)
    assume "f y = 0"
    then show ?thesis using IH by simp
  next
    assume fy: "f y = 1"
    with le have "filter (\<lambda>y. f y = 0) ys = []"
      by (auto simp: filter_empty_conv)
    with fy IH show ?thesis by simp
  next
    assume fy: "f y = 2"
    with le have "filter (\<lambda>y. f y = 0) ys = []" "filter (\<lambda>y. f y = 1) ys = []"
      by (auto simp: filter_empty_conv)
    with fy IH show ?thesis by simp
  qed
qed

lemma sort_default_weight:
  fixes t :: "(string \<times> flow_dict) list"
  assumes "\<forall>af\<in>set t. fst af = ''add'' \<or> fst af = ''mod'' \<or> fst af = ''del''"
  shows "sort_key (\<lambda>af. default_weight (fst af)) t =
     filter (\<lambda>af. fst af = ''add'') t @ filter (\<lambda>af. fst af = ''mod'') t @ filter (\<lambda>af. fst af = ''del'') t"
proof -
  let ?f = "\<lambda>af::string \<times> flow_dict. default_weight (fst af)"
  let ?s = "sort_key ?f t"
  have "sorted (map ?f ?s)" by (rule sorted_sort_key)
  moreover have "\<forall>y\<in>set ?s. ?f y \<le> 2" by (simp add: default_weight_def)
  ultimately have "?s = filter (\<lambda>y. ?f y = 0) ?s @ filter (\<lambda>y. ?f y = 1) ?s @ filter (\<lambda>y. ?f y = 2) ?s"
    by (rule sorted3_blocks)
  then have s: "?s = filter (\<lambda>y. ?f y = 0) t @ filter (\<lambda>y. ?f y = 1) t @ filter (\<lambda>y. ?f y = 2) t"
    by (simp only: sort_key_stable)
  have "filter (\<lambda>y. ?f y = 0) t = filter (\<lambda>af. fst af = ''add'') t"
    using assms by (intro filter_cong) (auto simp: default_weight_def)
  moreover have "filter (\<lambda>y. ?f y = 1) t = filter (\<lambda>af. fst af = ''mod'') t"
    using assms by (intro filter_cong) (auto simp: default_weight_def)
  moreover have "filter (\<lambda>y. ?f y = 2) t = filter (\<lambda>af. fst af = ''del'') t"
    using assms by (intro filter_cong) (auto simp: default_weight_def)
  ultimately show ?thesis using s by simp
qed

lemma groupby_block:
  assumes "\<forall>x\<in>set xs. key x = k" and "\<forall>y\<in>set ys. key y \<noteq> k"
  shows "groupby key (xs @ ys) = (if xs = [] then [] else [(k, xs)]) @ groupby key ys"
proof (cases xs)
  case Nil
  then show ?thesis by simp
next
  case (Cons x xs')
  have kx: "key x = k" using assms(1) Cons by simp
  have all: "\<forall>z\<in>set xs'. key z = k" using assms(1) Cons by simp
  have tw: "takeWhile (\<lambda>y. key y = k) (xs' @ ys) = xs'"
    using all assms(2) by (cases ys) (simp_all add: takeWhile_append2)
  have dw: "dropWhile (\<lambda>y. key y = k) (xs' @ ys) = ys"
    using all assms(2) by (cases ys) (simp_all add: dropWhile_append2)
  show ?thesis
    using Cons kx tw dw by simp
qed


lemma sort_by_weight_default:
  "sort_by_weight (weights (DeferredOVSBridge b False default_order)) (tuples_of calls) =
     Inr (filter (\<lambda>af. fst af = ''add'') (tuples_of calls)
          @ filter (\<lambda>af. fst af = ''mod'') (tuples_of calls)
          @ filter (\<lambda>af. fst af = ''del'') (tuples_of calls))"
proof -
  let ?wt = "map_of [(''del'', 2), (''mod'', 1), (''add'', 0::nat)]"
  let ?t = "tuples_of calls"
  have "sort_key (\<lambda>af. the (?wt (fst af))) ?t = sort_key (\<lambda>af. default_weight (fst af)) ?t"
    by (rule sort_key_cong_set) (simp only: weight_of_tuple option.sel)
  moreover have "\<forall>af\<in>set ?t. fst af = ''add'' \<or> fst af = ''mod'' \<or> fst af = ''del''"
    using tuples_kind by blast
  ultimately have "sort_key (\<lambda>af. the (?wt (fst af))) ?t =
      filter (\<lambda>af. fst af = ''add'') ?t @ filter (\<lambda>af. fst af = ''mod'') ?t
        @ filter (\<lambda>af. fst af = ''del'') ?t"
    by (simp only: sort_default_weight)
  then show ?thesis
    by (simp only: sort_by_weight_def default_weights option.case find_None_tuples)
qed

lemma groupby_kinds:
  fixes t :: "(string \<times> flow_dict) list"
  shows "groupby fst (filter (\<lambda>af. fst af = ''add'') t @ filter (\<lambda>af. fst af = ''mod'') t
           @ filter (\<lambda>af. fst af = ''del'') t) =
         kind_group ''add'' t @ kind_group ''mod'' t @ kind_group ''del'' t"
proof -
  let ?A = "filter (\<lambda>af. fst af = ''add'') t"
  let ?M = "filter (\<lambda>af. fst af = ''mod'') t"
  let ?D = "filter (\<lambda>af. fst af = ''del'') t"
  have "groupby fst (?A @ (?M @ ?D)) = kind_group ''add'' t @ groupby fst (?M @ ?D)"
    unfolding kind_group_def by (rule groupby_block) auto
  moreover have "groupby fst (?M @ ?D) = kind_group ''mod'' t @ groupby fst (?D @ [])"
    unfolding kind_group_def append_Nil2 by (rule groupby_block) auto
  moreover have "groupby fst (?D @ []) = kind_group ''del'' t @ groupby fst []"
    unfolding kind_group_def by (rule groupby_block) auto
  ultimately show ?thesis by simp
qed

lemma apply_flows_groups:
  "apply_flows ex (foldl submit (DeferredOVSBridge b False default_order) calls) w =
     (fst (apply_groups ex b
        (kind_group ''add'' (tuples_of calls) @ kind_group ''mod'' (tuples_of calls)
           @ kind_group ''del'' (tuples_of calls)) w),
      DeferredOVSBridge b False default_order,
      snd (apply_groups ex b
        (kind_group ''add'' (tuples_of calls) @ kind_group ''mod'' (tuples_of calls)
           @ kind_group ''del'' (tuples_of calls)) w))"
proof -
  let ?init = "DeferredOVSBridge b False default_order"
  let ?full = "?init\<lparr>action_flow_tuples := action_flow_tuples ?init @ tuples_of calls\<rparr>"
  have buf: "action_flow_tuples ?full = tuples_of calls" "full_ordered ?full = False"
    "weights ?full = weights ?init" "br ?full = b" "?full\<lparr>action_flow_tuples := []\<rparr> = ?init"
    by (simp_all add: DeferredOVSBridge_def)
  show ?thesis
  proof (cases "tuples_of calls = []")
    case True
    then show ?thesis
      by (simp add: submit_buffer apply_flows_def kind_group_def DeferredOVSBridge_def)
  next
    case False
    show ?thesis
      unfolding submit_buffer apply_flows_def Let_def buf
      using False
      by (simp add: sort_by_weight_default groupby_kinds split_beta)
  qed
qed

lemma build_all_valid:
  "\<forall>kw\<in>set kws. renders action kw \<Longrightarrow> fst (build_all action kws) = Inr (map (rendered action) kws)"
proof (induction kws)
  case Nil
  then show ?case by simp
next
  case (Cons kw kws)
  then have IH: "fst (build_all action kws) = Inr (map (rendered action) kws)" by simp
  from Cons.prems obtain s where s: "fst (build_flow_expr_str kw action) = Inr s"
    by (auto simp: renders_def split: sum.splits)
  then have "rendered action kw = s" by (simp add: rendered_def)
  with s IH show ?case
    by (auto split: prod.splits sum.splits)
qed

lemma issued_execute: "issued (snd (execute ex c w)) = issued w @ [c]"
  by (simp add: execute_def)

lemma snd_run_ofctl:
  "snd (run_ofctl ex b cmd args inp w) =
     snd (execute ex \<lparr>argv = [''ovs-ofctl'', cmd, br_name b] @ args, helper = root_helper b,
                      process_input = inp\<rparr> w)"
  by (simp add: run_ofctl_def split: prod.splits sum.splits)

lemma issued_run_ofctl:
  "issued (snd (run_ofctl ex b cmd args inp w)) =
     issued w @ [\<lparr>argv = [''ovs-ofctl'', cmd, br_name b] @ args, helper = root_helper b, process_input = inp\<rparr>]"
  by (simp only: snd_run_ofctl issued_execute)

lemma do_action_flows_valid:
  assumes "\<forall>kw\<in>set kws. renders action kw"
  shows "fst (do_action_flows ex b action kws w) = Inr ()"
    and "issued (snd (snd (do_action_flows ex b action kws w))) = issued w @ [batch_command b action kws]"
proof -
  obtain r kws' where ba: "build_all action kws = (r, kws')"
    by (cases "build_all action kws")
  with build_all_valid [OF assms] have r: "r = Inr (map (rendered action) kws)" by simp
  show "fst (do_action_flows ex b action kws w) = Inr ()"
    by (simp add: do_action_flows_def ba r)
  show "issued (snd (snd (do_action_flows ex b action kws w))) = issued w @ [batch_command b action kws]"
    by (simp add: do_action_flows_def ba r issued_run_ofctl batch_command_def)
qed

lemma apply_groups_valid:
  "\<forall>g\<in>set gs. \<forall>af\<in>set (snd g). renders (fst g) (snd af) \<Longrightarrow>
   fst (apply_groups ex b gs w) = Inr () \<and>
   issued (snd (apply_groups ex b gs w)) =
     issued w @ map (\<lambda>g. batch_command b (fst g) (map snd (snd g))) gs"
proof (induction gs arbitrary: w)
  case Nil
  then show ?case by simp
next
  case (Cons g gs)
  obtain k afl where g: "g = (k, afl)" by (cases g)
  obtain r kws' w' where d: "do_action_flows ex b k (map snd afl) w = (r, kws', w')"
    by (cases "do_action_flows ex b k (map snd afl) w")
  have v: "\<forall>kw\<in>set (map snd afl). renders k kw"
    using Cons.prems g by simp
  from do_action_flows_valid [OF v, of ex b w] d
  have r: "r = Inr ()" and w': "issued w' = issued w @ [batch_command b k (map snd afl)]"
    by simp_all
  have IH: "fst (apply_groups ex b gs w') = Inr () \<and>
     issued (snd (apply_groups ex b gs w')) =
       issued w' @ map (\<lambda>g. batch_command b (fst g) (map snd (snd g))) gs"
    using Cons.IH [of w'] Cons.prems by simp
  show ?case
    using IH by (simp add: g d r w')
qed

lemma kind_group_commands:
  "map (\<lambda>g. batch_command b (fst g) (map snd (snd g))) (kind_group k (tuples_of calls)) =
     batch_commands b k (rules_of k calls)"
proof -
  have "map snd (filter (\<lambda>af. fst af = k) (tuples_of calls)) = rules_of k calls"
    by (induction calls) (auto simp: tuples_of_def rules_of_def)
  moreover have "filter (\<lambda>af. fst af = k) (tuples_of calls) = [] \<longleftrightarrow> rules_of k calls = []"
    by (induction calls) (auto simp: tuples_of_def rules_of_def)
  ultimately show ?thesis
    by (simp add: kind_group_def batch_commands_def)
qed

lemma kind_group_valid:
  "\<forall>c\<in>set calls. renders (call_kind c) (call_rule c) \<Longrightarrow>
   \<forall>g\<in>set (kind_group k (tuples_of calls)). \<forall>af\<in>set (snd g). renders (fst g) (snd af)"
  by (auto simp: kind_group_def tuples_of_def split: if_splits)

text \<open>
  Claim C1.  For every sequence of calls buffered in a deferred bridge built with the
  default policy, \<^verbatim>\<open>apply_flows\<close> runs \<^verbatim>\<open>do_action_flows\<close> on the group
  of the additions, then of the modifications, then of the deletions, each group holding
  its calls in submission order and being absent when empty; and when every rule renders,
  it returns and has issued exactly one \<^verbatim>\<open>ovs-ofctl\<close> command per group, in
  that order, after whatever was issued before.
\<close>

theorem apply_flows_default_order:
  "apply_flows ex (foldl submit (DeferredOVSBridge b False default_order) calls) w =
     (fst (apply_groups ex b
        (kind_group ''add'' (tuples_of calls) @ kind_group ''mod'' (tuples_of calls)
           @ kind_group ''del'' (tuples_of calls)) w),
      DeferredOVSBridge b False default_order,
      snd (apply_groups ex b
        (kind_group ''add'' (tuples_of calls) @ kind_group ''mod'' (tuples_of calls)
           @ kind_group ''del'' (tuples_of calls)) w)) \<and>
   ((\<forall>c\<in>set calls. renders (call_kind c) (call_rule c)) \<longrightarrow>
      fst (apply_flows ex (foldl submit (DeferredOVSBridge b False default_order) calls) w) = Inr () \<and>
      issued (snd (snd (apply_flows ex (foldl submit (DeferredOVSBridge b False default_order) calls) w))) =
        issued w @ batch_commands b ''add'' (rules_of ''add'' calls)
          @ batch_commands b ''mod'' (rules_of ''mod'' calls)
          @ batch_commands b ''del'' (rules_of ''del'' calls))"
proof -
  let ?gs = "kind_group ''add'' (tuples_of calls) @ kind_group ''mod'' (tuples_of calls)
           @ kind_group ''del'' (tuples_of calls)"
  have valid: "fst (apply_groups ex b ?gs w) = Inr () \<and>
      issued (snd (apply_groups ex b ?gs w)) =
        issued w @ batch_commands b ''add'' (rules_of ''add'' calls)
          @ batch_commands b ''mod'' (rules_of ''mod'' calls)
          @ batch_commands b ''del'' (rules_of ''del'' calls)"
    if v: "\<forall>c\<in>set calls. renders (call_kind c) (call_rule c)"
  proof -
    have "\<forall>g\<in>set ?gs. \<forall>af\<in>set (snd g). renders (fst g) (snd af)"
      using kind_group_valid [OF v] by (simp add: ball_Un)
    from apply_groups_valid [OF this, of ex b w] show ?thesis
      by (simp only: map_append kind_group_commands)
  qed
  show ?thesis
    using valid by (simp only: apply_flows_groups fst_conv snd_conv) blast
qed


text \<open>
  The theorem on a deletion, an addition, a modification and a second addition.
\<close>

theorem apply_flows_default_order_witness:
  "issued (snd (snd (apply_flows quiet_executor
       (foldl submit (DeferredOVSBridge demo_bridge False default_order)
          [Delete_flows [(''in_port'', PyStr ''1'')],
           Add_flow [(''in_port'', PyStr ''1''), (''actions'', PyStr ''drop'')],
           Mod_flow [(''in_port'', PyStr ''2''), (''actions'', PyStr ''normal'')],
           Add_flow [(''in_port'', PyStr ''3''), (''actions'', PyStr ''normal'')]])
       world0))) =
     [\<lparr>argv = [''ovs-ofctl'', ''add-flows'', ''br-int'', ''-''], helper = ''sudo'',
       process_input = Some (''hard_timeout=0,idle_timeout=0,priority=1,in_port=1,actions=drop''
          @ newline @ ''hard_timeout=0,idle_timeout=0,priority=1,in_port=3,actions=normal'')\<rparr>,
      \<lparr>argv = [''ovs-ofctl'', ''mod-flows'', ''br-int'', ''-''], helper = ''sudo'',
       process_input = Some ''in_port=2,actions=normal''\<rparr>,
      \<lparr>argv = [''ovs-ofctl'', ''del-flows'', ''br-int'', ''-''], helper = ''sudo'',
       process_input = Some ''in_port=1''\<rparr>]"
proof -
  let ?calls = "[Delete_flows [(''in_port'', PyStr ''1'')],
           Add_flow [(''in_port'', PyStr ''1''), (''actions'', PyStr ''drop'')],
           Mod_flow [(''in_port'', PyStr ''2''), (''actions'', PyStr ''normal'')],
           Add_flow [(''in_port'', PyStr ''3''), (''actions'', PyStr ''normal'')]]"
  have r1: "fst (build_flow_expr_str [(''in_port'', PyStr ''1'')] ''del'') = Inr ''in_port=1''"
    by (simp add: build_other has_key_def py_join_vals_def)
  have r2: "fst (build_flow_expr_str [(''in_port'', PyStr ''1''), (''actions'', PyStr ''drop'')] ''add'') =
      Inr ''hard_timeout=0,idle_timeout=0,priority=1,in_port=1,actions=drop''"
    by (simp add: build_add del3_def del_key_def value_or_def py_join_vals_def)
  have r3: "fst (build_flow_expr_str [(''in_port'', PyStr ''2''), (''actions'', PyStr ''normal'')] ''mod'') =
      Inr ''in_port=2,actions=normal''"
    by (simp add: build_other has_key_def del_key_def py_join_vals_def)
  have r4: "fst (build_flow_expr_str [(''in_port'', PyStr ''3''), (''actions'', PyStr ''normal'')] ''add'') =
      Inr ''hard_timeout=0,idle_timeout=0,priority=1,in_port=3,actions=normal''"
    by (simp add: build_add del3_def del_key_def value_or_def py_join_vals_def)
  have valid: "\<forall>c\<in>set ?calls. renders (call_kind c) (call_rule c)"
    by (simp add: renders_def r1 r2 r3 r4)
  have step: "issued (snd (snd (apply_flows quiet_executor
       (foldl submit (DeferredOVSBridge demo_bridge False default_order) ?calls) world0))) =
     issued world0 @ batch_commands demo_bridge ''add'' (rules_of ''add'' ?calls)
          @ batch_commands demo_bridge ''mod'' (rules_of ''mod'' ?calls)
          @ batch_commands demo_bridge ''del'' (rules_of ''del'' ?calls)"
    using apply_flows_default_order [of quiet_executor demo_bridge ?calls world0] valid
    by blast
  show ?thesis
    unfolding step
    by (simp add: batch_commands_def batch_command_def rules_of_def rendered_def r1 r2 r3 r4
          demo_bridge_def world0_def)
qed


lemma apply_flows_buffer: "action_flow_tuples (fst (snd (apply_flows ex d w))) = []"
  by (simp add: apply_flows_def Let_def split: sum.splits prod.splits)

lemma apply_flows_empty:
  "action_flow_tuples d = [] \<Longrightarrow> apply_flows ex d w = (Inr (), d, w)"
  by (simp add: apply_flows_def Let_def)

text \<open>
  Claim C2.  Whatever \<^verbatim>\<open>apply_flows\<close> does, return or raise, the buffer it
  leaves is empty; on an empty buffer it returns with no command issued; and a second
  \<^verbatim>\<open>apply_flows\<close> right after the first issues no command.
\<close>

theorem apply_flows_clears_buffer:
  "action_flow_tuples (fst (snd (apply_flows ex d w))) = [] \<and>
   (action_flow_tuples d = [] \<longrightarrow> apply_flows ex d w = (Inr (), d, w)) \<and>
   apply_flows ex (fst (snd (apply_flows ex d w))) (snd (snd (apply_flows ex d w))) =
     (Inr (), fst (snd (apply_flows ex d w)), snd (snd (apply_flows ex d w)))"
  using apply_flows_buffer [of ex d w] apply_flows_empty [of d ex w]
    apply_flows_empty [OF apply_flows_buffer, of ex ex d w "snd (snd (apply_flows ex d w))"]
  by blast

text \<open>
  The theorem on a freshly built deferred bridge.
\<close>

theorem apply_flows_clears_buffer_witness:
  "apply_flows quiet_executor (DeferredOVSBridge demo_bridge False default_order) world0 =
     (Inr (), DeferredOVSBridge demo_bridge False default_order, world0)"
  using apply_flows_clears_buffer [of quiet_executor "DeferredOVSBridge demo_bridge False default_order" world0]
  by (simp add: DeferredOVSBridge_def)

lemma groupby_members:
  "g \<in> set (groupby key xs) \<Longrightarrow> set (snd g) \<subseteq> set xs \<and> (\<forall>x\<in>set (snd g). key x = fst g)"
proof (induction key xs rule: groupby.induct)
  case (1 key)
  then show ?case by simp
next
  case (2 key x xs)
  from "2.prems" consider "g = (key x, x # takeWhile (\<lambda>y. key y = key x) xs)"
    | "g \<in> set (groupby key (dropWhile (\<lambda>y. key y = key x) xs))"
    by auto
  then show ?case
  proof cases
    case 1
    then show ?thesis
      by (auto dest: set_takeWhileD)
  next
    case 2
    from "2.IH" [OF this] show ?thesis
      by (auto dest: set_dropWhileD)
  qed
qed

lemma groupby_concat: "concat (map snd (groupby key xs)) = xs"
  by (induction key xs rule: groupby.induct) simp_all

lemma count_insort_key: "count_list (insort_key f a xs) x = count_list (a # xs) x"
  by (induction xs) auto

lemma count_sort_key: "count_list (sort_key f xs) x = count_list xs x"
  by (induction xs) (simp_all add: count_insort_key)

lemma flush_order_count:
  "flush_order d = Inr s \<Longrightarrow> count_list s af = count_list (action_flow_tuples d) af"
  by (auto simp: flush_order_def sort_by_weight_def count_sort_key
        split: if_splits option.splits)

lemma flush_order_empty: "flush_order d = Inr s \<Longrightarrow> action_flow_tuples d = [] \<Longrightarrow> s = []"
  by (auto simp: flush_order_def sort_by_weight_def split: if_splits option.splits)

lemma apply_flows_issued:
  assumes "flush_order d = Inr s" and "\<forall>af\<in>set s. renders (fst af) (snd af)"
  shows "fst (apply_flows ex d w) = Inr () \<and>
     issued (snd (snd (apply_flows ex d w))) =
       issued w @ map (\<lambda>g. batch_command (br d) (fst g) (map snd (snd g))) (groupby fst s)"
proof (cases "action_flow_tuples d = []")
  case True
  with flush_order_empty [OF assms(1)] show ?thesis
    by (simp add: apply_flows_def)
next
  case False
  have v: "\<forall>g\<in>set (groupby fst s). \<forall>af\<in>set (snd g). renders (fst g) (snd af)"
  proof (intro ballI)
    fix g af assume "g \<in> set (groupby fst s)" and af: "af \<in> set (snd g)"
    from groupby_members [OF this(1)] af have "af \<in> set s" "fst af = fst g"
      by auto
    with assms(2) show "renders (fst g) (snd af)" by auto
  qed
  from assms(1) have so: "(if \<not> full_ordered d then sort_by_weight (weights d) (action_flow_tuples d)
       else Inr (action_flow_tuples d)) = Inr s"
    by (simp add: flush_order_def)
  have "apply_flows ex d w =
      (fst (apply_groups ex (br d) (groupby fst s) w), d\<lparr>action_flow_tuples := []\<rparr>,
       snd (apply_groups ex (br d) (groupby fst s) w))"
    using False unfolding apply_flows_def Let_def so by (simp add: split_beta)
  with apply_groups_valid [OF v, of ex "br d" w] show ?thesis
    by simp
qed

text \<open>
  Claim C5, as amended.  When the block ends normally, \<^verbatim>\<open>__exit__\<close> is
  \<^verbatim>\<open>apply_flows\<close>: if the sort succeeds and every buffered rule renders, the
  statement returns with the buffer empty, having issued after the block's commands
  exactly one \<^verbatim>\<open>ovs-ofctl\<close> command for each run of one kind in the flush order,
  and the runs together are the flush order, which holds every buffered operation as often
  as the buffer does.  When the block raises, \<^verbatim>\<open>__exit__\<close> issues nothing and
  changes nothing, and the statement raises the block's exception with the world and the
  deferred bridge as the block left them: the pending operations stay in the buffer.
\<close>

theorem deferred_exit_flushes_or_propagates:
  "(body d w = (None, db, wb) \<and> flush_order db = Inr s \<and>
    (\<forall>af\<in>set s. renders (fst af) (snd af)) \<longrightarrow>
      fst (with_deferred ex d body w) = Inr () \<and>
      action_flow_tuples (fst (snd (with_deferred ex d body w))) = [] \<and>
      issued (snd (snd (with_deferred ex d body w))) =
        issued wb @ map (\<lambda>g. batch_command (br db) (fst g) (map snd (snd g))) (groupby fst s) \<and>
      concat (map snd (groupby fst s)) = s \<and>
      (\<forall>af. count_list s af = count_list (action_flow_tuples db) af)) \<and>
   (body d w = (Some e, db, wb) \<longrightarrow> with_deferred ex d body w = (Inl e, db, wb)) \<and>
   deferred_exit ex d None w = apply_flows ex d w \<and>
   deferred_exit ex d (Some e) w = (Inr (), d, w)"
proof -
  have normal: "deferred_exit ex d None w = apply_flows ex d w"
    by (simp add: deferred_exit_def)
  have failed: "deferred_exit ex d (Some e) w = (Inr (), d, w)"
    by (simp add: deferred_exit_def)
  have flush: "fst (with_deferred ex d body w) = Inr () \<and>
      action_flow_tuples (fst (snd (with_deferred ex d body w))) = [] \<and>
      issued (snd (snd (with_deferred ex d body w))) =
        issued wb @ map (\<lambda>g. batch_command (br db) (fst g) (map snd (snd g))) (groupby fst s) \<and>
      concat (map snd (groupby fst s)) = s \<and>
      (\<forall>af. count_list s af = count_list (action_flow_tuples db) af)"
    if b: "body d w = (None, db, wb)" and s: "flush_order db = Inr s"
      and v: "\<forall>af\<in>set s. renders (fst af) (snd af)"
  proof -
    have wd: "with_deferred ex d body w = apply_flows ex db wb"
      using b by (simp add: with_deferred_def deferred_exit_def)
    from apply_flows_issued [OF s v, of ex wb] apply_flows_buffer [of ex db wb]
      groupby_concat [of fst s] flush_order_count [OF s]
    show ?thesis
      unfolding wd by blast
  qed
  have propagate: "with_deferred ex d body w = (Inl e, db, wb)"
    if "body d w = (Some e, db, wb)"
    using that by (simp add: with_deferred_def deferred_exit_def)
  from normal failed flush propagate show ?thesis by blast
qed

lemma one_delete_order:
  "flush_order (deferred_delete_flows (DeferredOVSBridge demo_bridge False default_order)
       [(''in_port'', PyStr ''1'')]) = Inr [(''del'', [(''in_port'', PyStr ''1'')])]"
  by (simp add: deferred_delete_flows_def flush_order_def sort_by_weight_def DeferredOVSBridge_def
        default_order_def upt_rec)

lemma one_delete_commands:
  "issued world0 @ map (\<lambda>g. batch_command
        (br (deferred_delete_flows (DeferredOVSBridge demo_bridge False default_order)
               [(''in_port'', PyStr ''1'')])) (fst g) (map snd (snd g)))
      (groupby fst [(''del'', [(''in_port'', PyStr ''1'')])]) =
     [\<lparr>argv = [''ovs-ofctl'', ''del-flows'', ''br-int'', ''-''], helper = ''sudo'',
       process_input = Some ''in_port=1''\<rparr>]"
proof -
  have r: "rendered ''del'' [(''in_port'', PyStr ''1'')] = ''in_port=1''"
    by (simp add: rendered_def build_other has_key_def py_join_vals_def)
  have b: "br (deferred_delete_flows (DeferredOVSBridge demo_bridge False default_order)
               [(''in_port'', PyStr ''1'')]) = demo_bridge"
    by (simp add: deferred_delete_flows_def DeferredOVSBridge_def)
  show ?thesis
    unfolding b by (simp add: batch_command_def r demo_bridge_def world0_def)
qed

lemma one_delete_renders: "renders ''del'' [(''in_port'', PyStr ''1'')]"
  "rendered ''del'' [(''in_port'', PyStr ''1'')] = ''in_port=1''"
  by (simp_all add: renders_def rendered_def build_other has_key_def py_join_vals_def)

text \<open>
  The theorem on a block that buffers a deletion and ends normally, and on one that
  raises after buffering it.
\<close>

theorem deferred_exit_flushes_or_propagates_witness:
  "issued (snd (snd (with_deferred quiet_executor (DeferredOVSBridge demo_bridge False default_order)
       (\<lambda>d w. (None, deferred_delete_flows d [(''in_port'', PyStr ''1'')], w)) world0))) =
     [\<lparr>argv = [''ovs-ofctl'', ''del-flows'', ''br-int'', ''-''], helper = ''sudo'',
       process_input = Some ''in_port=1''\<rparr>] \<and>
   with_deferred quiet_executor (DeferredOVSBridge demo_bridge False default_order)
       (\<lambda>d w. (Some (OtherError ''boom''), deferred_delete_flows d [(''in_port'', PyStr ''1'')], w)) world0 =
     (Inl (OtherError ''boom''),
      deferred_delete_flows (DeferredOVSBridge demo_bridge False default_order) [(''in_port'', PyStr ''1'')],
      world0)"
proof -
  let ?D = "DeferredOVSBridge demo_bridge False default_order"
  let ?db = "deferred_delete_flows ?D [(''in_port'', PyStr ''1'')]"
  let ?s = "[(''del'', [(''in_port'', PyStr ''1'')])]"
  have v: "\<forall>af\<in>set ?s. renders (fst af) (snd af)"
    by (simp add: one_delete_renders)
  from deferred_exit_flushes_or_propagates [where ex = quiet_executor and d = ?D and w = world0 and db = ?db
      and wb = world0 and s = ?s and e = "OtherError ''boom''"
      and body = "\<lambda>d w. (None, deferred_delete_flows d [(''in_port'', PyStr ''1'')], w)"]
    one_delete_order v
  have "issued (snd (snd (with_deferred quiet_executor ?D
       (\<lambda>d w. (None, deferred_delete_flows d [(''in_port'', PyStr ''1'')], w)) world0))) =
     issued world0 @ map (\<lambda>g. batch_command (br ?db) (fst g) (map snd (snd g))) (groupby fst ?s)"
    by blast
  then have one: "issued (snd (snd (with_deferred quiet_executor ?D
       (\<lambda>d w. (None, deferred_delete_flows d [(''in_port'', PyStr ''1'')], w)) world0))) =
     [\<lparr>argv = [''ovs-ofctl'', ''del-flows'', ''br-int'', ''-''], helper = ''sudo'',
       process_input = Some ''in_port=1''\<rparr>]"
    by (simp only: one_delete_commands)
  from deferred_exit_flushes_or_propagates [where ex = quiet_executor and d = ?D and w = world0 and db = ?db
      and wb = world0 and s = ?s and e = "OtherError ''boom''"
      and body = "\<lambda>d w. (Some (OtherError ''boom''), deferred_delete_flows d [(''in_port'', PyStr ''1'')], w)"]
  have two: "with_deferred quiet_executor ?D
       (\<lambda>d w. (Some (OtherError ''boom''), deferred_delete_flows d [(''in_port'', PyStr ''1'')], w)) world0 =
     (Inl (OtherError ''boom''), ?db, world0)"
    by blast
  from one two show ?thesis by blast
qed

text \<open>
  Claim C5 as stated fails where it says that the pending operations are discarded:
  after the block has raised, the deletion is still in the buffer, and an
  \<^verbatim>\<open>apply_flows\<close> on the same object issues it.
\<close>

theorem deferred_exit_keeps_buffer_counterexample:
  "action_flow_tuples (fst (snd (with_deferred quiet_executor
       (DeferredOVSBridge demo_bridge False default_order)
       (\<lambda>d w. (Some (OtherError ''boom''), deferred_delete_flows d [(''in_port'', PyStr ''1'')], w))
       world0))) = [(''del'', [(''in_port'', PyStr ''1'')])] \<and>
   issued (snd (snd (apply_flows quiet_executor
       (fst (snd (with_deferred quiet_executor
          (DeferredOVSBridge demo_bridge False default_order)
          (\<lambda>d w. (Some (OtherError ''boom''), deferred_delete_flows d [(''in_port'', PyStr ''1'')], w))
          world0))) world0))) =
     [\<lparr>argv = [''ovs-ofctl'', ''del-flows'', ''br-int'', ''-''], helper = ''sudo'',
       process_input = Some ''in_port=1''\<rparr>]"
proof -
  let ?D = "DeferredOVSBridge demo_bridge False default_order"
  let ?db = "deferred_delete_flows ?D [(''in_port'', PyStr ''1'')]"
  have wd: "with_deferred quiet_executor ?D
       (\<lambda>d w. (Some (OtherError ''boom''), deferred_delete_flows d [(''in_port'', PyStr ''1'')], w))
       world0 = (Inl (OtherError ''boom''), ?db, world0)"
    by (simp add: with_deferred_def deferred_exit_def)
  have v: "\<forall>af\<in>set [(''del'', [(''in_port'', PyStr ''1'')])]. renders (fst af) (snd af)"
    by (simp add: one_delete_renders)
  from apply_flows_issued [OF one_delete_order v, of quiet_executor world0]
  have i: "issued (snd (snd (apply_flows quiet_executor ?db world0))) =
     [\<lparr>argv = [''ovs-ofctl'', ''del-flows'', ''br-int'', ''-''], helper = ''sudo'',
       process_input = Some ''in_port=1''\<rparr>]"
    by (simp only: one_delete_commands)
  have b: "action_flow_tuples ?db = [(''del'', [(''in_port'', PyStr ''1'')])]"
    by (simp add: deferred_delete_flows_def DeferredOVSBridge_def)
  from i b show ?thesis
    unfolding wd by (simp only: fst_conv snd_conv)
qed
section \<open>Decoding a map string\<close>

lemma split_char_absent: "c \<notin> set s \<Longrightarrow> split_from [c] cur s = [rev cur @ s]"
  by (induction s arbitrary: cur) auto

lemma split_char_first:
  "c \<notin> set a \<Longrightarrow> split_from [c] cur (a @ c # b) = (rev cur @ a) # split_from [c] [] b"
  by (induction a arbitrary: cur) auto

lemma split_from_nonempty: "split_from sep cur s \<noteq> []"
  by (induction sep cur s rule: split_from.induct) auto

lemma split_eq_entry:
  assumes "CHR ''='' \<in> set e"
  shows "py_split ''='' e =
     takeWhile (\<lambda>c. c \<noteq> CHR ''='') e # py_split ''='' (tl (dropWhile (\<lambda>c. c \<noteq> CHR ''='') e))"
proof -
  let ?a = "takeWhile (\<lambda>c. c \<noteq> CHR ''='') e"
  let ?r = "dropWhile (\<lambda>c. c \<noteq> CHR ''='') e"
  have "?r \<noteq> []" using assms by (simp add: dropWhile_eq_Nil_conv)
  moreover have "hd ?r = CHR ''=''"
    using assms hd_dropWhile [of "\<lambda>c. c \<noteq> CHR ''=''" e] by (auto simp: dropWhile_eq_Nil_conv)
  ultimately have r: "?r = CHR ''='' # tl ?r" by (cases ?r) auto
  have e: "e = ?a @ CHR ''='' # tl ?r"
    using takeWhile_dropWhile_id [of "\<lambda>c. c \<noteq> CHR ''=''" e] r by simp
  have na: "CHR ''='' \<notin> set ?a"
    by (auto dest: set_takeWhileD)
  have "split_from ''='' [] (?a @ CHR ''='' # tl ?r) = (rev [] @ ?a) # split_from ''='' [] (tl ?r)"
    using na by (rule split_char_first)
  with e show ?thesis by (simp add: py_split_def)
qed

lemma split_eq_length: "CHR ''='' \<in> set e \<Longrightarrow> 2 \<le> length (py_split ''='' e)"
proof -
  assume "CHR ''='' \<in> set e"
  from split_eq_entry [OF this] split_from_nonempty [of "''=''" "[]"]
  show ?thesis
    by (cases "py_split ''='' (tl (dropWhile (\<lambda>c. c \<noteq> CHR ''='') e))")
       (auto simp: py_split_def)
qed

lemma count_one_rest:
  assumes "CHR ''='' \<in> set e" and "count_list e (CHR ''='') \<le> 1"
  shows "CHR ''='' \<notin> set (tl (dropWhile (\<lambda>c. c \<noteq> CHR ''='') e))"
  using assms
proof (induction e)
  case Nil
  then show ?case by simp
next
  case (Cons c e)
  show ?case
  proof (cases "c = CHR ''=''")
    case True
    with Cons.prems(2) have "count_list e (CHR ''='') = 0" by simp
    then have "CHR ''='' \<notin> set e" by (simp add: count_list_0_iff)
    with True show ?thesis by simp
  next
    case False
    with Cons show ?thesis by simp
  qed
qed

lemma entry_step:
  assumes "CHR ''='' \<in> set e" and "count_list e (CHR ''='') \<le> 1"
  shows "py_split ''='' e =
     [takeWhile (\<lambda>c. c \<noteq> CHR ''='') e, tl (dropWhile (\<lambda>c. c \<noteq> CHR ''='') e)]"
  using split_eq_entry [OF assms(1)] count_one_rest [OF assms]
  by (simp add: py_split_def split_char_absent)


lemma db_str_to_map_agrees:
  assumes "\<forall>e\<in>set (py_split '', '' (py_strip ''{}'' s)). count_list e (CHR ''='') \<le> 1"
  shows "db_str_to_map s = entries_to_map (py_split '', '' (py_strip ''{}'' s))"
  unfolding db_str_to_map_def entries_to_map_def
proof (rule foldl_cong [OF refl refl])
  fix ret :: "string \<rightharpoonup> string" and e
  assume "e \<in> set (py_split '', '' (py_strip ''{}'' s))"
  with assms have c: "count_list e (CHR ''='') \<le> 1" by simp
  show "(if CHR ''='' \<notin> set e then ret
         else case py_split ''='' e of
                [] \<Rightarrow> ret
              | [k] \<Rightarrow> ret
              | k # v # rest \<Rightarrow> ret(k \<mapsto> py_strip dquote v)) =
        (if CHR ''='' \<notin> set e then ret
         else ret(takeWhile (\<lambda>c. c \<noteq> CHR ''='') e \<mapsto>
                  py_strip dquote (tl (dropWhile (\<lambda>c. c \<noteq> CHR ''='') e))))"
    using entry_step [OF _ c] by auto
qed

lemma example_string:
  "''{a='' @ quoted ''1'' @ '', b='' @ quoted ''2'' @ ''}'' =
     [CHR ''{'', CHR ''a'', CHR ''='', CHR 0x22, CHR ''1'', CHR 0x22, CHR '','', CHR '' '',
      CHR ''b'', CHR ''='', CHR 0x22, CHR ''2'', CHR 0x22, CHR ''}'']"
  by (simp add: quoted_def dquote_def)

lemma db_str_to_map_example:
  "db_str_to_map (''{a='' @ quoted ''1'' @ '', b='' @ quoted ''2'' @ ''}'') =
     [''a'' \<mapsto> ''1'', ''b'' \<mapsto> ''2'']"
  unfolding example_string
  by (simp add: db_str_to_map_def py_split_def py_strip_def py_lstrip_def py_rstrip_def dquote_def)

lemma takeWhile_absent: "c \<notin> set r \<Longrightarrow> takeWhile (\<lambda>x. x \<noteq> c) r = r"
  by (induction r) auto

lemma split_first_piece:
  "\<exists>rest. py_split ''='' r = takeWhile (\<lambda>c. c \<noteq> CHR ''='') r # rest"
proof (cases "CHR ''='' \<in> set r")
  case True
  from split_eq_entry [OF this] show ?thesis by blast
next
  case False
  then show ?thesis
    by (simp add: py_split_def split_char_absent takeWhile_absent)
qed

lemma entry_pieces:
  assumes "CHR ''='' \<in> set e"
  shows "\<exists>rest. py_split ''='' e =
     entry_key e # takeWhile (\<lambda>c. c \<noteq> CHR ''='') (entry_rest e) # rest"
  using split_eq_entry [OF assms] split_first_piece [of "entry_rest e"]
  by (auto simp: entry_key_def entry_rest_def)

lemma entry_rest_single:
  assumes "CHR ''='' \<in> set e" and "count_list e (CHR ''='') = 1"
  shows "CHR ''='' \<notin> set (entry_rest e)"
  using assms unfolding entry_rest_def by (intro count_one_rest) simp_all

lemma db_str_to_map_fold:
  "db_str_to_map s =
     foldl (\<lambda>ret e.
              if CHR ''='' \<notin> set e then ret
              else ret(entry_key e \<mapsto>
                     py_strip dquote
                       (if count_list e (CHR ''='') = 1 then entry_rest e
                        else takeWhile (\<lambda>c. c \<noteq> CHR ''='') (entry_rest e))))
       Map.empty (py_split '', '' (py_strip ''{}'' s))"
  unfolding db_str_to_map_def
proof (rule foldl_cong [OF refl refl])
  fix ret :: "string \<rightharpoonup> string" and e
  show "(if CHR ''='' \<notin> set e then ret
         else case py_split ''='' e of
                [] \<Rightarrow> ret
              | [k] \<Rightarrow> ret
              | k # v # rest \<Rightarrow> ret(k \<mapsto> py_strip dquote v)) =
        (if CHR ''='' \<notin> set e then ret
         else ret(entry_key e \<mapsto>
                py_strip dquote
                  (if count_list e (CHR ''='') = 1 then entry_rest e
                   else takeWhile (\<lambda>c. c \<noteq> CHR ''='') (entry_rest e))))"
  proof (cases "CHR ''='' \<in> set e")
    case False
    then show ?thesis by simp
  next
    case True
    from entry_pieces [OF True] obtain rest where
      p: "py_split ''='' e = entry_key e # takeWhile (\<lambda>c. c \<noteq> CHR ''='') (entry_rest e) # rest"
      by blast
    show ?thesis
    proof (cases "count_list e (CHR ''='') = 1")
      case one: True
      from entry_rest_single [OF True one] True one show ?thesis
        by (simp add: p takeWhile_absent)
    next
      case False
      with True show ?thesis by (simp add: p)
    qed
  qed
qed

text \<open>
  Claim C9, as amended.  \<^verbatim>\<open>db_str_to_map\<close> removes every leading and trailing
  brace and splits on \<open>", "\<close>; going through the entries from the left, it skips an
  entry without \<^verbatim>\<open>=\<close> and binds, for every other entry, the text before the first
  \<^verbatim>\<open>=\<close>: for an entry with exactly one \<^verbatim>\<open>=\<close> to the text after it with
  the surrounding double quotes stripped, whatever the other entries are (for an entry with
  more, to the piece the code takes).  And the map string of \<open>a\<close> and \<open>b\<close> decodes
  to the two bindings.
\<close>

theorem db_str_to_map_entries:
  "db_str_to_map s =
     foldl (\<lambda>ret e.
              if CHR ''='' \<notin> set e then ret
              else ret(entry_key e \<mapsto>
                     py_strip dquote
                       (if count_list e (CHR ''='') = 1 then entry_rest e
                        else takeWhile (\<lambda>c. c \<noteq> CHR ''='') (entry_rest e))))
       Map.empty (py_split '', '' (py_strip ''{}'' s)) \<and>
   db_str_to_map (''{a='' @ quoted ''1'' @ '', b='' @ quoted ''2'' @ ''}'') =
     [''a'' \<mapsto> ''1'', ''b'' \<mapsto> ''2'']"
  using db_str_to_map_fold [of s] db_str_to_map_example by blast

text \<open>
  The theorem on a string with two opening braces, an entry without \<^verbatim>\<open>=\<close> and an
  entry with two: the entry with one \<^verbatim>\<open>=\<close> is bound as it says.
\<close>

theorem db_str_to_map_entries_witness:
  "db_str_to_map ''{{a=1, y, b=x=y}'' ''a'' = Some ''1''"
proof -
  have entries: "py_split '', '' (py_strip ''{}'' ''{{a=1, y, b=x=y}'') = [''a=1'', ''y'', ''b=x=y'']"
    by (simp add: py_split_def py_strip_def py_lstrip_def py_rstrip_def)
  from db_str_to_map_entries [of "''{{a=1, y, b=x=y}''"]
  have "db_str_to_map ''{{a=1, y, b=x=y}'' =
     foldl (\<lambda>ret e.
              if CHR ''='' \<notin> set e then ret
              else ret(entry_key e \<mapsto>
                     py_strip dquote
                       (if count_list e (CHR ''='') = 1 then entry_rest e
                        else takeWhile (\<lambda>c. c \<noteq> CHR ''='') (entry_rest e))))
       Map.empty [''a=1'', ''y'', ''b=x=y'']"
    unfolding entries by blast
  then show ?thesis
    by (simp add: entry_key_def entry_rest_def py_strip_def py_lstrip_def py_rstrip_def dquote_def)
qed

text \<open>
  Claim C9 as stated fails on a string wrapped in two pairs of braces: the code removes
  both and binds \<open>a\<close>, where removing one pair leaves the key \<open>{a\<close>.
\<close>

theorem db_str_to_map_braces_counterexample:
  "db_str_to_map ''{{a=1}}'' ''a'' = Some ''1'' \<and> db_str_to_map_spec ''{{a=1}}'' ''a'' = None"
  by (simp add: db_str_to_map_def db_str_to_map_spec_def entries_to_map_def strip_brace_pair_def
        py_split_def py_strip_def py_lstrip_def py_rstrip_def dquote_def)

text \<open>
  An entry with a second \<^verbatim>\<open>=\<close>: the code splits at every \<^verbatim>\<open>=\<close> and takes the
  piece between the first and the second one as the value.
\<close>

lemma db_str_to_map_second_equals:
  "db_str_to_map (''{a='' @ quoted ''x=y'' @ ''}'') ''a'' = Some ''x''"
  by (simp add: db_str_to_map_def quoted_def
        py_split_def py_strip_def py_lstrip_def py_rstrip_def dquote_def)

section \<open>Waiting for the ofport, and adding a port\<close>

lemma poll_never_raises: "\<exists>r. fst (poll_ofport ex b p w) = Inr r"
  by (simp add: poll_ofport_def db_get_val_def run_vsctl_def Let_def
        split: prod.splits sum.splits option.splits)

lemma snd_run_vsctl:
  "snd (run_vsctl ex b args ce w) = snd (execute ex (vsctl_command b args) w)"
  by (simp add: run_vsctl_def vsctl_command_def Let_def split: prod.splits sum.splits)

lemma snd_db_get_val:
  "snd (db_get_val ex b t r c ce w) = snd (run_vsctl ex b [''get'', t, r, c] ce w)"
  by (simp add: db_get_val_def split: prod.splits sum.splits option.splits)

lemma snd_poll: "snd (poll_ofport ex b p w) = snd (execute ex (poll_command b p) w)"
  by (simp only: poll_ofport_def snd_db_get_val snd_run_vsctl poll_command_def)

lemma issued_poll: "issued (snd (poll_ofport ex b p w)) = issued w @ [poll_command b p]"
  by (simp add: snd_poll issued_execute)

lemma retry_unfold:
  "poll_ofport ex b p w = (Inr r, w1) \<Longrightarrow>
   retry_get_port_ofport ex b p start k w =
     (if \<not> ofport_result_pending r then (Inr r, w1)
      else if vsctl_timeout b * 1000 \<le> int (clock w1 - start) then (Inl RetryError, w1)
      else retry_get_port_ofport ex b p start (Suc k) (w1\<lparr>clock := clock w1 + wait_ms k\<rparr>))"
  by (subst retry_get_port_ofport.simps) simp


lemma retry_returns:
  "(\<exists>r. fst (retry_get_port_ofport ex b p start k w) = Inr r \<and> \<not> ofport_result_pending r) \<or>
   (fst (retry_get_port_ofport ex b p start k w) = Inl RetryError \<and>
    vsctl_timeout b * 1000 \<le> int (clock (snd (retry_get_port_ofport ex b p start k w)) - start))"
proof (induction ex b p start k w rule: retry_get_port_ofport.induct)
  case (1 ex self pname start k w)
  obtain r where r: "fst (poll_ofport ex self pname w) = Inr r"
    using poll_never_raises by blast
  obtain w1 where w1: "poll_ofport ex self pname w = (Inr r, w1)"
    using r by (cases "poll_ofport ex self pname w") simp
  show ?case
  proof (cases "ofport_result_pending r")
    case False
    then show ?thesis by (simp add: retry_unfold [OF w1])
  next
    case pending: True
    show ?thesis
    proof (cases "vsctl_timeout self * 1000 \<le> int (clock w1 - start)")
      case True
      with pending show ?thesis by (simp add: retry_unfold [OF w1])
    next
      case False
      from "1.IH" [OF w1 [symmetric] refl _ False] pending
      show ?thesis
        using pending False by (simp add: retry_unfold [OF w1])
    qed
  qed
qed

lemma pending_None: "ofport_result_pending None"
  by (simp add: ofport_result_pending_def py_int_def)

lemma get_port_ofport_returns: "\<exists>s. fst (get_port_ofport ex b p w) = Inr (Some s)"
proof -
  let ?r = "retry_get_port_ofport ex b p (clock w) 0 w"
  from retry_returns [of ex b p "clock w" 0 w]
  consider r where "fst ?r = Inr r" "\<not> ofport_result_pending r" | "fst ?r = Inl RetryError"
    by blast
  then show ?thesis
  proof cases
    case 1
    then obtain s where "r = Some s"
      using pending_None by (cases r) auto
    with 1 show ?thesis
      by (cases ?r) (simp add: get_port_ofport_def)
  next
    case 2
    then show ?thesis
      by (cases ?r) (simp add: get_port_ofport_def)
  qed
qed

lemma retry_converges:
  "(\<forall>n<K. ofport_result_pending
              (case fst (poll_ofport ex b p (world_at ex b p k n w)) of Inr r \<Rightarrow> r | Inl e \<Rightarrow> None) \<and>
           int (clock (snd (poll_ofport ex b p (world_at ex b p k n w))) - start) < vsctl_timeout b * 1000) \<Longrightarrow>
   fst (poll_ofport ex b p (world_at ex b p k K w)) = Inr r \<Longrightarrow>
   \<not> ofport_result_pending r \<Longrightarrow>
   retry_get_port_ofport ex b p start k w = (Inr r, snd (poll_ofport ex b p (world_at ex b p k K w)))"
proof (induction K arbitrary: k w)
  case 0
  then have "poll_ofport ex b p w = (Inr r, snd (poll_ofport ex b p w))"
    by (cases "poll_ofport ex b p w") simp
  from retry_unfold [OF this] 0 show ?case by simp
next
  case (Suc K)
  obtain r0 where r0: "fst (poll_ofport ex b p w) = Inr r0"
    using poll_never_raises by blast
  let ?w1 = "snd (poll_ofport ex b p w)"
  have p0: "poll_ofport ex b p w = (Inr r0, ?w1)"
    using r0 by (cases "poll_ofport ex b p w") simp
  from Suc.prems(1) have first: "ofport_result_pending r0"
    "int (clock ?w1 - start) < vsctl_timeout b * 1000"
    using r0 by (auto dest: spec [of _ 0])
  let ?w2 = "?w1\<lparr>clock := clock ?w1 + wait_ms k\<rparr>"
  have rest: "\<forall>n<K. ofport_result_pending
              (case fst (poll_ofport ex b p (world_at ex b p (Suc k) n ?w2)) of Inr r \<Rightarrow> r | Inl e \<Rightarrow> None) \<and>
           int (clock (snd (poll_ofport ex b p (world_at ex b p (Suc k) n ?w2))) - start) < vsctl_timeout b * 1000"
  proof (intro allI impI)
    fix n assume "n < K"
    then have "Suc n < Suc K" by simp
    with Suc.prems(1) show "ofport_result_pending
              (case fst (poll_ofport ex b p (world_at ex b p (Suc k) n ?w2)) of Inr r \<Rightarrow> r | Inl e \<Rightarrow> None) \<and>
           int (clock (snd (poll_ofport ex b p (world_at ex b p (Suc k) n ?w2))) - start) < vsctl_timeout b * 1000"
      by (auto dest!: spec [of _ "Suc n"])
  qed
  have last: "fst (poll_ofport ex b p (world_at ex b p (Suc k) K ?w2)) = Inr r"
    using Suc.prems(2) by simp
  have "retry_get_port_ofport ex b p start (Suc k) ?w2 =
      (Inr r, snd (poll_ofport ex b p (world_at ex b p (Suc k) K ?w2)))"
    using Suc.IH [OF rest last Suc.prems(3)] .
  with first show ?case
    by (simp add: retry_unfold [OF p0])
qed

lemma retry_never:
  "(\<forall>n. ofport_result_pending
          (case fst (poll_ofport ex b p (world_at ex b p k n w)) of Inr r \<Rightarrow> r | Inl e \<Rightarrow> None)) \<Longrightarrow>
   fst (retry_get_port_ofport ex b p start k w) = Inl RetryError"
proof (induction ex b p start k w rule: retry_get_port_ofport.induct)
  case (1 ex self pname start k w)
  obtain r where r: "fst (poll_ofport ex self pname w) = Inr r"
    using poll_never_raises by blast
  obtain w1 where w1: "poll_ofport ex self pname w = (Inr r, w1)"
    using r by (cases "poll_ofport ex self pname w") simp
  from "1.prems" r have pending: "ofport_result_pending r"
    by (auto dest: spec [of _ 0])
  show ?case
  proof (cases "vsctl_timeout self * 1000 \<le> int (clock w1 - start)")
    case True
    with pending show ?thesis by (simp add: retry_unfold [OF w1])
  next
    case False
    have "\<forall>n. ofport_result_pending
          (case fst (poll_ofport ex self pname
               (world_at ex self pname (Suc k) n (w1\<lparr>clock := clock w1 + wait_ms k\<rparr>))) of
             Inr r \<Rightarrow> r | Inl e \<Rightarrow> None)"
    proof
      fix n
      from "1.prems" have "ofport_result_pending
          (case fst (poll_ofport ex self pname (world_at ex self pname k (Suc n) w)) of
             Inr r \<Rightarrow> r | Inl e \<Rightarrow> None)"
        by blast
      then show "ofport_result_pending
          (case fst (poll_ofport ex self pname
               (world_at ex self pname (Suc k) n (w1\<lparr>clock := clock w1 + wait_ms k\<rparr>))) of
             Inr r \<Rightarrow> r | Inl e \<Rightarrow> None)"
        by (simp add: w1)
    qed
    from "1.IH" [OF w1 [symmetric] refl _ False this] pending
    show ?thesis
      using False by (simp add: retry_unfold [OF w1])
  qed
qed


lemma retry_late:
  "fst (retry_get_port_ofport ex b p start k w) = Inl RetryError \<Longrightarrow>
   vsctl_timeout b * 1000 \<le> int (clock (snd (retry_get_port_ofport ex b p start k w)) - start)"
  using retry_returns [of ex b p start k w] by auto

lemma polled_world:
  "fst (poll_ofport ex b p (world_at ex b p 0 n w)) = Inr (polled ex b p n w)"
  using poll_never_raises [of ex b p "world_at ex b p 0 n w"]
  by (auto simp: polled_def)

lemma get_port_ofport_converges:
  assumes "\<forall>n<K. ofport_result_pending (polled ex b p n w) \<and>
            int (clock_after ex b p n w - clock w) < vsctl_timeout b * 1000"
    and "\<not> ofport_result_pending (polled ex b p K w)"
  shows "fst (get_port_ofport ex b p w) = Inr (polled ex b p K w)"
proof -
  from assms(1) have pre: "\<forall>n<K. ofport_result_pending
            (case fst (poll_ofport ex b p (world_at ex b p 0 n w)) of Inr r \<Rightarrow> r | Inl e \<Rightarrow> None) \<and>
         int (clock (snd (poll_ofport ex b p (world_at ex b p 0 n w))) - clock w) < vsctl_timeout b * 1000"
    by (simp add: polled_def clock_after_def)
  from retry_converges [OF pre polled_world assms(2)]
  show ?thesis
    by (simp add: get_port_ofport_def)
qed

lemma get_port_ofport_never:
  assumes "\<forall>n. ofport_result_pending (polled ex b p n w)"
  shows "fst (get_port_ofport ex b p w) = Inr (Some INVALID_OFPORT)"
    and "vsctl_timeout b * 1000 \<le> int (clock (snd (get_port_ofport ex b p w)) - clock w)"
proof -
  from assms have "\<forall>n. ofport_result_pending
        (case fst (poll_ofport ex b p (world_at ex b p 0 n w)) of Inr r \<Rightarrow> r | Inl e \<Rightarrow> None)"
    by (simp add: polled_def)
  then have e: "fst (retry_get_port_ofport ex b p (clock w) 0 w) = Inl RetryError"
    by (rule retry_never)
  from e show "fst (get_port_ofport ex b p w) = Inr (Some INVALID_OFPORT)"
    by (cases "retry_get_port_ofport ex b p (clock w) 0 w") (simp add: get_port_ofport_def)
  from retry_late [OF e] e
  show "vsctl_timeout b * 1000 \<le> int (clock (snd (get_port_ofport ex b p w)) - clock w)"
    by (cases "retry_get_port_ofport ex b p (clock w) 0 w") (simp add: get_port_ofport_def)
qed

text \<open>
  Claim C6.  A polled value is pending exactly when \<^verbatim>\<open>int\<close> does not parse it.
  \<^verbatim>\<open>get_port_ofport\<close> always returns a string and never raises.  When the first
  \<open>K\<close> polls return pending values, the time since the start (the waits and the polls so
  far) being below \<^verbatim>\<open>vsctl_timeout * 1000\<close> milliseconds after each of them, and
  the next poll returns an integer, that integer is returned.  When no poll ever returns
  an integer, \<^verbatim>\<open>INVALID_OFPORT\<close> is returned, and not before the deadline has
  passed.
\<close>

theorem get_port_ofport_waits:
  "(ofport_result_pending r \<longleftrightarrow> (\<forall>i. py_int r \<noteq> Inr i)) \<and>
   (\<exists>s. fst (get_port_ofport ex b p w) = Inr (Some s)) \<and>
   ((\<forall>n<K. ofport_result_pending (polled ex b p n w) \<and>
            int (clock_after ex b p n w - clock w) < vsctl_timeout b * 1000) \<and>
    \<not> ofport_result_pending (polled ex b p K w) \<longrightarrow>
      fst (get_port_ofport ex b p w) = Inr (polled ex b p K w)) \<and>
   ((\<forall>n. ofport_result_pending (polled ex b p n w)) \<longrightarrow>
      fst (get_port_ofport ex b p w) = Inr (Some INVALID_OFPORT) \<and>
      vsctl_timeout b * 1000 \<le> int (clock (snd (get_port_ofport ex b p w)) - clock w))"
proof -
  have a: "ofport_result_pending r \<longleftrightarrow> (\<forall>i. py_int r \<noteq> Inr i)"
    by (cases "py_int r") (simp_all add: ofport_result_pending_def)
  have b: "\<exists>s. fst (get_port_ofport ex b p w) = Inr (Some s)"
    by (rule get_port_ofport_returns)
  from a b get_port_ofport_converges [of K ex b p w] get_port_ofport_never [of ex b p w]
  show ?thesis by blast
qed

lemma quiet_poll: "fst (poll_ofport quiet_executor b p w) = Inr None"
  by (simp add: poll_ofport_def db_get_val_def run_vsctl_def execute_def quiet_executor_def)

lemma quiet_polled: "polled quiet_executor b p n w = None"
  by (simp add: polled_def quiet_poll)

text \<open>
  The theorem on a port whose ofport is unset in the first two polls and 5 in the
  third, and on a port whose ofport is never set.
\<close>

theorem get_port_ofport_waits_witness:
  "fst (get_port_ofport late_executor demo_bridge ''tap0'' world0) = Inr (Some ''5'') \<and>
   fst (get_port_ofport quiet_executor demo_bridge ''tap0'' world0) = Inr (Some INVALID_OFPORT) \<and>
   vsctl_timeout demo_bridge * 1000 \<le>
     int (clock (snd (get_port_ofport quiet_executor demo_bridge ''tap0'' world0)) - clock world0)"
proof -
  have p5: "\<not> ofport_result_pending (Some ''5'')"
    by (simp add: ofport_result_pending_def py_int_def py_strip_def py_lstrip_def py_rstrip_def
          whitespace_def is_digit_def)
  have pb: "ofport_result_pending (Some ''[]'')"
    by (simp add: ofport_result_pending_def py_int_def py_strip_def py_lstrip_def py_rstrip_def
          whitespace_def is_digit_def)
  have v: "polled late_executor demo_bridge ''tap0'' 0 world0 = Some ''[]''"
    "polled late_executor demo_bridge ''tap0'' (Suc 0) world0 = Some ''[]''"
    "polled late_executor demo_bridge ''tap0'' (Suc (Suc 0)) world0 = Some ''5''"
    by (simp_all add: polled_def poll_ofport_def db_get_val_def run_vsctl_def execute_def
          late_executor_def world0_def py_rstrip_def)
  have c: "clock_after late_executor demo_bridge ''tap0'' 0 world0 = 1"
    "clock_after late_executor demo_bridge ''tap0'' (Suc 0) world0 = 12"
    by (simp_all add: clock_after_def poll_ofport_def db_get_val_def run_vsctl_def execute_def
          late_executor_def world0_def wait_ms_def)
  have t: "vsctl_timeout demo_bridge * 1000 = 10000" "clock world0 = 0"
    by (simp_all add: demo_bridge_def world0_def)
  have pre: "(\<forall>n<Suc (Suc 0). ofport_result_pending (polled late_executor demo_bridge ''tap0'' n world0) \<and>
            int (clock_after late_executor demo_bridge ''tap0'' n world0 - clock world0)
              < vsctl_timeout demo_bridge * 1000) \<and>
    \<not> ofport_result_pending (polled late_executor demo_bridge ''tap0'' (Suc (Suc 0)) world0)"
    by (simp add: All_less_Suc v c pb p5 t)
  have never: "\<forall>n. ofport_result_pending (polled quiet_executor demo_bridge ''tap0'' n world0)"
    by (simp add: quiet_polled pending_None)
  from get_port_ofport_waits [of "Some ''5''" late_executor demo_bridge "''tap0''" world0 "Suc (Suc 0)"] pre
  have "fst (get_port_ofport late_executor demo_bridge ''tap0'' world0) =
      Inr (polled late_executor demo_bridge ''tap0'' (Suc (Suc 0)) world0)"
    by blast
  then have one: "fst (get_port_ofport late_executor demo_bridge ''tap0'' world0) = Inr (Some ''5'')"
    by (simp only: v)
  from get_port_ofport_waits [of "Some ''5''" quiet_executor demo_bridge "''tap0''" world0 0] never
  have two: "fst (get_port_ofport quiet_executor demo_bridge ''tap0'' world0) = Inr (Some INVALID_OFPORT) \<and>
      vsctl_timeout demo_bridge * 1000 \<le>
        int (clock (snd (get_port_ofport quiet_executor demo_bridge ''tap0'' world0)) - clock world0)"
    by blast
  from one two show ?thesis by blast
qed


lemma retry_issued:
  "\<exists>n. issued (snd (retry_get_port_ofport ex b p start k w)) = issued w @ replicate n (poll_command b p)"
proof (induction ex b p start k w rule: retry_get_port_ofport.induct)
  case (1 ex self pname start k w)
  obtain r where r: "fst (poll_ofport ex self pname w) = Inr r"
    using poll_never_raises by blast
  obtain w1 where w1: "poll_ofport ex self pname w = (Inr r, w1)"
    using r by (cases "poll_ofport ex self pname w") simp
  have i1: "issued w1 = issued w @ replicate (Suc 0) (poll_command self pname)"
    using issued_poll [of ex self pname w] w1 by simp
  show ?case
  proof (cases "\<not> ofport_result_pending r \<or> vsctl_timeout self * 1000 \<le> int (clock w1 - start)")
    case True
    then have "snd (retry_get_port_ofport ex self pname start k w) = w1"
      by (auto simp: retry_unfold [OF w1])
    with i1 show ?thesis by metis
  next
    case False
    then have again: "retry_get_port_ofport ex self pname start k w =
        retry_get_port_ofport ex self pname start (Suc k) (w1\<lparr>clock := clock w1 + wait_ms k\<rparr>)"
      by (simp add: retry_unfold [OF w1])
    from False "1.IH" [OF w1 [symmetric] refl]
    obtain n where "issued (snd (retry_get_port_ofport ex self pname start (Suc k)
          (w1\<lparr>clock := clock w1 + wait_ms k\<rparr>))) =
        issued (w1\<lparr>clock := clock w1 + wait_ms k\<rparr>) @ replicate n (poll_command self pname)"
      by auto
    then have "issued (snd (retry_get_port_ofport ex self pname start k w)) =
        issued w @ replicate (Suc n) (poll_command self pname)"
      by (simp add: again i1 replicate_app_Cons_same)
    then show ?thesis by blast
  qed
qed

lemma snd_get_port_ofport:
  "snd (get_port_ofport ex b p w) = snd (retry_get_port_ofport ex b p (clock w) 0 w)"
  by (simp add: get_port_ofport_def split: prod.splits sum.splits error.splits)

lemma issued_created:
  "issued (created ex b p opts w) = issued w @ [vsctl_command b (add_port_args b p opts)]"
  by (simp add: created_def snd_run_vsctl issued_execute)

lemma issued_delete_port:
  "issued (delete_port ex b p w) = issued w @ [del_port_command b p]"
  by (simp add: delete_port_def snd_run_vsctl issued_execute del_port_command_def)

lemma del_not_poll: "del_port_command b p \<noteq> poll_command b q"
  by (simp add: del_port_command_def poll_command_def vsctl_command_def)

lemma del_not_add: "del_port_command b p \<noteq> vsctl_command b (add_port_args b q opts)"
  by (simp add: del_port_command_def vsctl_command_def add_port_args_def)

text \<open>
  Claim C7.  When the ofport that \<^verbatim>\<open>add_port\<close> resolves for the port it has just
  created is \<^verbatim>\<open>INVALID_OFPORT\<close>, it returns that and its last command deletes the
  port; otherwise it returns what \<^verbatim>\<open>get_port_ofport\<close> returned and none of its
  commands deletes the port.
\<close>

theorem add_port_deletes_invalid:
  "(fst (get_port_ofport ex b p (created ex b p opts w)) = Inr (Some INVALID_OFPORT) \<longrightarrow>
      fst (add_port ex b p opts w) = Inr (Some INVALID_OFPORT) \<and>
      issued (snd (add_port ex b p opts w)) =
        issued (snd (get_port_ofport ex b p (created ex b p opts w))) @ [del_port_command b p]) \<and>
   (fst (get_port_ofport ex b p (created ex b p opts w)) \<noteq> Inr (Some INVALID_OFPORT) \<longrightarrow>
      add_port ex b p opts w = get_port_ofport ex b p (created ex b p opts w) \<and>
      del_port_command b p \<notin> set (issued_since w (snd (add_port ex b p opts w))))"
proof -
  let ?g = "get_port_ofport ex b p (created ex b p opts w)"
  obtain s where s: "fst ?g = Inr (Some s)"
    using get_port_ofport_returns by blast
  obtain w2 where g: "?g = (Inr (Some s), w2)"
    using s by (cases ?g) simp
  obtain n where n: "issued w2 = issued w @ vsctl_command b (add_port_args b p opts) # replicate n (poll_command b p)"
    using retry_issued [of ex b p "clock (created ex b p opts w)" 0 "created ex b p opts w"] g
    by (auto simp: snd_get_port_ofport [symmetric] issued_created)
  show ?thesis
  proof (cases "s = INVALID_OFPORT")
    case True
    with g show ?thesis
      by (simp add: add_port_def created_def [symmetric] issued_delete_port)
  next
    case False
    with g have eq: "add_port ex b p opts w = ?g"
      by (simp add: add_port_def created_def [symmetric])
    have "issued_since w w2 = vsctl_command b (add_port_args b p opts) # replicate n (poll_command b p)"
      by (simp add: issued_since_def n)
    then have "del_port_command b p \<notin> set (issued_since w w2)"
      using del_not_poll [of b p p] del_not_add [of b p p opts] by auto
    with False g eq show ?thesis by simp
  qed
qed

text \<open>
  The theorem on a port whose ofport is never set, and on one that gets the ofport 5.
\<close>

theorem add_port_deletes_invalid_witness:
  "fst (add_port quiet_executor demo_bridge ''tap0'' [] world0) = Inr (Some INVALID_OFPORT) \<and>
   last (issued (snd (add_port quiet_executor demo_bridge ''tap0'' [] world0))) =
     del_port_command demo_bridge ''tap0'' \<and>
   fst (add_port late_executor demo_bridge ''tap0'' [] world0) = Inr (Some ''5'') \<and>
   del_port_command demo_bridge ''tap0'' \<notin>
     set (issued_since world0 (snd (add_port late_executor demo_bridge ''tap0'' [] world0)))"
proof -
  have never: "\<forall>n. ofport_result_pending
      (polled quiet_executor demo_bridge ''tap0'' n (created quiet_executor demo_bridge ''tap0'' [] world0))"
    by (simp add: quiet_polled pending_None)
  have q: "fst (get_port_ofport quiet_executor demo_bridge ''tap0''
             (created quiet_executor demo_bridge ''tap0'' [] world0)) = Inr (Some INVALID_OFPORT)"
    using never by (rule get_port_ofport_never)
  have p5: "\<not> ofport_result_pending (Some ''5'')"
    by (simp add: ofport_result_pending_def py_int_def py_strip_def py_lstrip_def py_rstrip_def
          whitespace_def is_digit_def)
  have pb: "ofport_result_pending (Some ''[]'')"
    by (simp add: ofport_result_pending_def py_int_def py_strip_def py_lstrip_def py_rstrip_def
          whitespace_def is_digit_def)
  let ?c = "created late_executor demo_bridge ''tap0'' [] world0"
  have v: "polled late_executor demo_bridge ''tap0'' 0 ?c = Some ''[]''"
    "polled late_executor demo_bridge ''tap0'' (Suc 0) ?c = Some ''5''"
    by (simp_all add: polled_def poll_ofport_def db_get_val_def run_vsctl_def execute_def
          late_executor_def world0_def py_rstrip_def created_def)
  have c: "clock_after late_executor demo_bridge ''tap0'' 0 ?c = 2" "clock ?c = 1"
    by (simp_all add: clock_after_def poll_ofport_def db_get_val_def run_vsctl_def execute_def
          late_executor_def world0_def created_def)
  have t: "vsctl_timeout demo_bridge * 1000 = 10000"
    by (simp add: demo_bridge_def)
  have pre: "(\<forall>n<Suc 0. ofport_result_pending (polled late_executor demo_bridge ''tap0'' n ?c) \<and>
            int (clock_after late_executor demo_bridge ''tap0'' n ?c - clock ?c)
              < vsctl_timeout demo_bridge * 1000) \<and>
    \<not> ofport_result_pending (polled late_executor demo_bridge ''tap0'' (Suc 0) ?c)"
    by (simp add: v c pb p5 t)
  from pre have "fst (get_port_ofport late_executor demo_bridge ''tap0'' ?c) =
      Inr (polled late_executor demo_bridge ''tap0'' (Suc 0) ?c)"
    by (intro get_port_ofport_converges) blast+
  then have l: "fst (get_port_ofport late_executor demo_bridge ''tap0'' ?c) = Inr (Some ''5'')"
    by (simp only: v)
  then have l': "fst (get_port_ofport late_executor demo_bridge ''tap0'' ?c) \<noteq> Inr (Some INVALID_OFPORT)"
    by (simp add: INVALID_OFPORT_def)
  from add_port_deletes_invalid [of quiet_executor demo_bridge "''tap0''" "[]" world0] q
  have one: "fst (add_port quiet_executor demo_bridge ''tap0'' [] world0) = Inr (Some INVALID_OFPORT) \<and>
      last (issued (snd (add_port quiet_executor demo_bridge ''tap0'' [] world0))) =
        del_port_command demo_bridge ''tap0''"
    by simp
  from add_port_deletes_invalid [of late_executor demo_bridge "''tap0''" "[]" world0] l'
  have e: "add_port late_executor demo_bridge ''tap0'' [] world0 =
      get_port_ofport late_executor demo_bridge ''tap0'' ?c"
    and nd: "del_port_command demo_bridge ''tap0'' \<notin>
        set (issued_since world0 (snd (add_port late_executor demo_bridge ''tap0'' [] world0)))"
    by blast+
  have "fst (add_port late_executor demo_bridge ''tap0'' [] world0) = Inr (Some ''5'')"
    by (simp only: e l)
  with nd have two: "fst (add_port late_executor demo_bridge ''tap0'' [] world0) = Inr (Some ''5'') \<and>
      del_port_command demo_bridge ''tap0'' \<notin>
        set (issued_since world0 (snd (add_port late_executor demo_bridge ''tap0'' [] world0)))"
    by blast
  from one two show ?thesis by blast
qed

section \<open>VIF ports\<close>

lemma rows_not_ready:
  "\<forall>row\<in>set rows. \<not> positive_ofport (snd row) \<Longrightarrow>
   vif_port_set_rows ex b rows acc w = (Inr acc, w)"
  by (induction rows arbitrary: acc w) (auto simp: positive_ofport_def Let_def)


















end
